theory Spec2Isabelle
  imports Main "HOL-Library.Word" "HOL-Library.Stream" "HOL-Library.Mapping" "HOL-Library.AList_Mapping"
begin

section \<open>Common types\<close>

text \<open>
  Go byte slices and Go strings are byte sequences; both are modelled as \<open>string\<close>
  (a list of 8-bit characters). \<open>hotstuff.ID\<close> and the twins \<open>NetworkID\<close> are
  \<open>uint32\<close> in the source; no arithmetic is done on them in the code below, so they
  are natural numbers. \<open>consensus.View\<close> is \<open>uint64\<close> and is a 64-bit word, because
  the code subtracts from it and converts it to \<open>int\<close>.
\<close>

type_synonym bytes = string
type_synonym ID = nat
type_synonym View = "64 word"
type_synonym Hash = bytes

text \<open>The run-time panics the modelled code can raise.\<close>

datatype panic =
  NilPointerDereference
  | IntegerDivideByZero
  | SenderNotFound nat

section \<open>The crypto cache (crypto/cache.go)\<close>

subsection \<open>The wrapped primitive\<close>

text \<open>
  \<open>consensus.QuorumSignature\<close> is an interface with the methods \<open>ToBytes()\<close> and
  \<open>Participants()\<close>; a signature value is modelled by what the two methods return
  (\<open>Participants\<close> in the order in which \<open>ForEach\<close> visits them).
\<close>

record QuorumSignature =
  ToBytes :: bytes
  Participants :: "ID list"

text \<open>
  \<open>consensus.CryptoBase\<close>, the interface of the wrapped primitive. Its
  implementations are not part of the modelled files, so the primitive is a parameter:
  a record of the functions the cache calls. \<open>Sign\<close> returns either an error (its
  message) or a signature.
\<close>

record CryptoBase =
  Sign :: "bytes \<Rightarrow> string + QuorumSignature"
  Verify :: "QuorumSignature \<Rightarrow> bytes \<Rightarrow> bool"
  BatchVerify :: "QuorumSignature \<Rightarrow> (ID, bytes) mapping \<Rightarrow> bool"

text \<open>Every call the cache makes to the primitive is recorded, in order.\<close>

datatype impl_call =
  CallSign bytes
  | CallVerify QuorumSignature bytes
  | CallBatchVerify QuorumSignature "(ID, bytes) mapping"

subsection \<open>The cache state\<close>

text \<open>
  \<open>entries\<close> is the key set of the Go map \<open>entries\<close> (the map's values are the
  list elements holding the same keys); \<open>accessOrder\<close> is the \<open>container/list\<close>
  list of keys, front first. The mutex is not modelled: the operations below run one
  at a time.
\<close>

record cache =
  impl :: CryptoBase
  capacity :: int
  entries :: "string set"
  accessOrder :: "string list"

text \<open>
  \<open>NewCache\<close> takes any \<open>int\<close> as the capacity; \<open>make\<close> with a size hint that is
  zero or negative at run time returns an empty map.
\<close>

definition NewCache :: "CryptoBase \<Rightarrow> int \<Rightarrow> cache" where
  "NewCache i cap = \<lparr>impl = i, capacity = cap, entries = {}, accessOrder = []\<rparr>"

text \<open>\<open>list.MoveToFront\<close> of the element that holds \<open>key\<close>.\<close>

definition MoveToFront :: "string \<Rightarrow> string list \<Rightarrow> string list" where
  "MoveToFront key xs = key # remove1 key xs"

text \<open>
  \<open>evict\<close>: nothing to do below capacity; otherwise remove the back of the list.
  On an empty list \<open>Back()\<close> is \<open>nil\<close> and \<open>Remove(nil)\<close> dereferences it.
\<close>

definition evict :: "cache \<Rightarrow> panic + cache" where
  "evict c =
     (if int (card (entries c)) < capacity c then Inr c
      else (case accessOrder c of
              [] \<Rightarrow> Inl NilPointerDereference
            | _ # _ \<Rightarrow>
                (let key = last (accessOrder c)
                 in Inr (c\<lparr>accessOrder := butlast (accessOrder c),
                           entries := entries c - {key}\<rparr>))))"

definition cache_insert :: "cache \<Rightarrow> string \<Rightarrow> panic + cache" where
  "cache_insert c key =
     (if key \<in> entries c then Inr (c\<lparr>accessOrder := MoveToFront key (accessOrder c)\<rparr>)
      else (case evict c of
              Inl e \<Rightarrow> Inl e
            | Inr c' \<Rightarrow> Inr (c'\<lparr>accessOrder := key # accessOrder c',
                                entries := insert key (entries c')\<rparr>)))"

definition check :: "cache \<Rightarrow> string \<Rightarrow> bool \<times> cache" where
  "check c key =
     (if key \<notin> entries c then (False, c)
      else (True, c\<lparr>accessOrder := MoveToFront key (accessOrder c)\<rparr>))"

subsection \<open>Sign, Verify, BatchVerify\<close>

text \<open>
  \<open>sha256.Sum256\<close> is the standard library's; it is the parameter \<open>H\<close> of the
  functions below. The key of a single-message entry is the digest followed by the
  signature bytes.
\<close>

definition verify_key :: "(bytes \<Rightarrow> bytes) \<Rightarrow> QuorumSignature \<Rightarrow> bytes \<Rightarrow> string" where
  "verify_key H sig message = H message @ ToBytes sig"

text \<open>
  Each operation returns its result, the calls it made to the primitive and the new
  cache state, or the panic that ended it.
\<close>

definition cache_Sign ::
  "(bytes \<Rightarrow> bytes) \<Rightarrow> cache \<Rightarrow> bytes \<Rightarrow> panic + ((string + QuorumSignature) \<times> impl_call list \<times> cache)" where
  "cache_Sign H c message =
     (case Sign (impl c) message of
        Inl err \<Rightarrow> Inr (Inl err, [CallSign message], c)
      | Inr sig \<Rightarrow>
          (case cache_insert c (verify_key H sig message) of
             Inl e \<Rightarrow> Inl e
           | Inr c' \<Rightarrow> Inr (Inr sig, [CallSign message], c')))"

definition cache_Verify ::
  "(bytes \<Rightarrow> bytes) \<Rightarrow> cache \<Rightarrow> QuorumSignature \<Rightarrow> bytes \<Rightarrow> panic + (bool \<times> impl_call list \<times> cache)" where
  "cache_Verify H c signature message =
     (let key = verify_key H signature message;
          (hit, c1) = check c key
      in if hit then Inr (True, [], c1)
         else if Verify (impl c1) signature message then
           (case cache_insert c1 key of
              Inl e \<Rightarrow> Inl e
            | Inr c2 \<Rightarrow> Inr (True, [CallVerify signature message], c2))
         else Inr (False, [CallVerify signature message], c1))"

text \<open>
  \<open>BatchVerify\<close>. The hasher is modelled by the bytes written to it so far:
  \<open>Write\<close> appends, and \<open>Sum(b)\<close> returns \<open>b\<close> followed by the digest of what was
  written, as a new slice (the argument \<open>hash[:]\<close> has length and capacity 32, so the
  append cannot reuse its array). The source drops the slice \<open>Sum\<close> returns, and the
  array \<open>hash\<close> keeps its initial value, 32 zero bytes.
\<close>

definition hasher_Write :: "bytes \<Rightarrow> bytes \<Rightarrow> bytes" where
  "hasher_Write hasher p = hasher @ p"

definition hasher_Sum :: "(bytes \<Rightarrow> bytes) \<Rightarrow> bytes \<Rightarrow> bytes \<Rightarrow> bytes" where
  "hasher_Sum H hasher b = b @ H hasher"

definition zero_Hash :: Hash where
  "zero_Hash = replicate 32 (CHR 0x00)"

definition batch_written :: "(ID, bytes) mapping \<Rightarrow> bytes" where
  "batch_written batch =
     foldl (\<lambda>hasher id. hasher_Write hasher (Mapping.lookup_default [] batch id))
       [] (Mapping.ordered_keys batch)"

definition batch_key :: "(bytes \<Rightarrow> bytes) \<Rightarrow> QuorumSignature \<Rightarrow> (ID, bytes) mapping \<Rightarrow> string" where
  "batch_key H signature batch =
     (let hash = zero_Hash;
          hasher = batch_written batch;
          dropped = hasher_Sum H hasher hash
      in hash @ ToBytes signature)"

definition cache_BatchVerify ::
  "(bytes \<Rightarrow> bytes) \<Rightarrow> cache \<Rightarrow> QuorumSignature \<Rightarrow> (ID, bytes) mapping
     \<Rightarrow> panic + (bool \<times> impl_call list \<times> cache)" where
  "cache_BatchVerify H c signature batch =
     (let key = batch_key H signature batch;
          (hit, c1) = check c key
      in if hit then Inr (True, [], c1)
         else if BatchVerify (impl c1) signature batch then
           (case cache_insert c1 key of
              Inl e \<Rightarrow> Inl e
            | Inr c2 \<Rightarrow> Inr (True, [CallBatchVerify signature batch], c2))
         else Inr (False, [CallBatchVerify signature batch], c1))"

subsection \<open>Sequences of operations\<close>

datatype cache_op =
  OpSign bytes
  | OpVerify QuorumSignature bytes
  | OpBatchVerify QuorumSignature "(ID, bytes) mapping"

fun apply_cache_op :: "(bytes \<Rightarrow> bytes) \<Rightarrow> cache \<Rightarrow> cache_op \<Rightarrow> panic + cache" where
  "apply_cache_op H c (OpSign m) =
     (case cache_Sign H c m of Inl e \<Rightarrow> Inl e | Inr (_, _, c') \<Rightarrow> Inr c')"
| "apply_cache_op H c (OpVerify s m) =
     (case cache_Verify H c s m of Inl e \<Rightarrow> Inl e | Inr (_, _, c') \<Rightarrow> Inr c')"
| "apply_cache_op H c (OpBatchVerify s b) =
     (case cache_BatchVerify H c s b of Inl e \<Rightarrow> Inl e | Inr (_, _, c') \<Rightarrow> Inr c')"

fun run_cache_ops :: "(bytes \<Rightarrow> bytes) \<Rightarrow> cache \<Rightarrow> cache_op list \<Rightarrow> panic + cache" where
  "run_cache_ops H c [] = Inr c"
| "run_cache_ops H c (x # xs) =
     (case apply_cache_op H c x of Inl e \<Rightarrow> Inl e | Inr c' \<Rightarrow> run_cache_ops H c' xs)"

text \<open>A run of insertions alone, as in the eviction property.\<close>

fun insert_all :: "cache \<Rightarrow> string list \<Rightarrow> panic + cache" where
  "insert_all c [] = Inr c"
| "insert_all c (k # ks) =
     (case cache_insert c k of Inl e \<Rightarrow> Inl e | Inr c' \<Rightarrow> insert_all c' ks)"


subsection \<open>Invariants of the cache state\<close>

text \<open>
  The list and the map hold the same keys, once each; the list is no longer than the
  capacity.
\<close>

definition cache_sync :: "cache \<Rightarrow> bool" where
  "cache_sync c = (distinct (accessOrder c) \<and> entries c = set (accessOrder c))"

definition cache_bounded :: "cache \<Rightarrow> bool" where
  "cache_bounded c = (int (length (accessOrder c)) \<le> capacity c)"

definition cache_wf :: "cache \<Rightarrow> bool" where
  "cache_wf c = (cache_sync c \<and> cache_bounded c)"

text \<open>
  The effect of one insertion on the access order, in closed form: the key goes to the
  front, its old position (if any) is dropped, and the list is cut to the capacity.
\<close>

definition lru_push :: "nat \<Rightarrow> string \<Rightarrow> string list \<Rightarrow> string list" where
  "lru_push n k xs = take n (k # filter (\<lambda>x. x \<noteq> k) xs)"

text \<open>
  The key the specification describes for a batch: the digest of the messages in
  ascending id order, followed by the signature bytes.
\<close>

definition spec_batch_key :: "(bytes \<Rightarrow> bytes) \<Rightarrow> QuorumSignature \<Rightarrow> (ID, bytes) mapping \<Rightarrow> string" where
  "spec_batch_key H signature batch =
     H (concat (map (\<lambda>id. Mapping.lookup_default [] batch id) (Mapping.ordered_keys batch)))
       @ ToBytes signature"

text \<open>
  The result of \<open>cache.Verify(s, m)\<close> in the state that the operations \<open>ops\<close> reach
  from a new cache of capacity \<open>cap\<close> over the primitive \<open>i\<close>: the boolean it returns,
  or the panic that ended the operations or the call.
\<close>

definition Verify_after ::
  "(bytes \<Rightarrow> bytes) \<Rightarrow> CryptoBase \<Rightarrow> int \<Rightarrow> cache_op list \<Rightarrow> QuorumSignature \<Rightarrow> bytes
     \<Rightarrow> panic + bool" where
  "Verify_after H i cap ops s m =
     (case run_cache_ops H (NewCache i cap) ops of
        Inl e \<Rightarrow> Inl e
      | Inr c \<Rightarrow>
          (case cache_Verify H c s m of
             Inl e \<Rightarrow> Inl e
           | Inr (b, calls, c') \<Rightarrow> Inr b))"

text \<open>
  The single-message entries of a cache are sound when the primitive accepts every
  signature and message whose key is in the cache, for the messages whose digest is not
  the all-zero one (the keys that \<open>BatchVerify\<close> inserts begin with 32 zero bytes).
\<close>

definition cache_sound :: "(bytes \<Rightarrow> bytes) \<Rightarrow> cache \<Rightarrow> bool" where
  "cache_sound H c =
     (\<forall>s m. H m \<noteq> zero_Hash \<and> verify_key H s m \<in> entries c \<longrightarrow> Verify (impl c) s m)"

text \<open>
  The \<open>n\<close>-th most recent of the keys inserted in the order \<open>ks\<close>, counting from one:
  the first most recent key is the last one inserted.
\<close>

definition nth_most_recent :: "string list \<Rightarrow> nat \<Rightarrow> string" where
  "nth_most_recent ks n = rev ks ! (n - 1)"

subsection \<open>A small primitive for concrete runs\<close>

text \<open>
  A digest function with 32-byte results that are never all zero, and a primitive over
  it whose signature of a message is the digest of the message. They stand in for
  SHA-256 and for a real signature scheme in the concrete instances of the theorems.
\<close>

definition toy_hash :: "bytes \<Rightarrow> bytes" where
  "toy_hash m = CHR ''#'' # take 31 (m @ replicate 31 (CHR ''.''))"

definition toy_impl :: CryptoBase where
  "toy_impl = \<lparr>
     Sign = (\<lambda>m. if m = [] then Inl ''empty message''
                  else Inr \<lparr>ToBytes = toy_hash m, Participants = [1]\<rparr>),
     Verify = (\<lambda>s m. ToBytes s = toy_hash m),
     BatchVerify = (\<lambda>s batch. list_all (\<lambda>id. ToBytes s = toy_hash (Mapping.lookup_default [] batch id))
                                  (Mapping.ordered_keys batch))\<rparr>"

definition deadbeef :: bytes where
  "deadbeef = [CHR 0xDE, CHR 0xAD, CHR 0xBE, CHR 0xEF]"

definition batchA :: "(ID, bytes) mapping" where
  "batchA = Mapping.update 1 ''a'' Mapping.empty"

definition batchB :: "(ID, bytes) mapping" where
  "batchB = Mapping.update 1 ''b'' Mapping.empty"

definition sigA :: QuorumSignature where
  "sigA = \<lparr>ToBytes = toy_hash ''a'', Participants = [1]\<rparr>"

text \<open>
  The signature of the message \<open>m\<close> with the participant \<open>p\<close>, and two more primitives
  over the same signatures. \<open>rejecting_impl\<close> signs as \<open>toy_impl\<close> does and accepts no
  signature, not even its own. \<open>signer_impl\<close> looks at who signed, as a primitive that
  checks each part of a signature with the public key of its participant does: it
  accepts the signature bytes of the message from the participant 1 only.
\<close>

definition sig_by :: "ID \<Rightarrow> bytes \<Rightarrow> QuorumSignature" where
  "sig_by p m = \<lparr>ToBytes = toy_hash m, Participants = [p]\<rparr>"

definition rejecting_impl :: CryptoBase where
  "rejecting_impl = toy_impl\<lparr>Verify := (\<lambda>s m. False)\<rparr>"

definition signer_impl :: CryptoBase where
  "signer_impl = toy_impl\<lparr>Verify := (\<lambda>s m. ToBytes s = toy_hash m \<and> Participants s = [1])\<rparr>"

text \<open>
  A digest function that gives the all-zero digest to one message, the empty one, and a
  primitive over it. No message with the all-zero SHA-256 digest is known; the two
  serve to show what the keys of \<open>BatchVerify\<close> would do to such a message.
\<close>

definition zero_at_empty :: "bytes \<Rightarrow> bytes" where
  "zero_at_empty m = (if m = [] then zero_Hash else toy_hash m)"

definition zero_impl :: CryptoBase where
  "zero_impl = toy_impl\<lparr>Verify := (\<lambda>s m. ToBytes s = zero_at_empty m)\<rparr>"

section \<open>Blocks and certificates\<close>

text \<open>
  \<open>consensus.QuorumCert\<close> and \<open>consensus.Block\<close> by the accessors the modelled code
  calls. \<open>Signature()\<close> is \<open>nil\<close> for the certificate of the genesis block.
\<close>

record QuorumCert =
  Signature :: "QuorumSignature option"

record Block =
  Hash :: Hash
  Parent :: Hash
  Proposer :: ID
  View :: View
  QuorumCert :: QuorumCert

section \<open>The twins network (twins/network.go, twins/scenario.go)\<close>

record NodeID =
  ReplicaID :: ID
  NetworkID :: nat

text \<open>
  A node. \<open>syncView\<close> stands for \<open>node.mods.Synchronizer().View()\<close>, the view of the
  node's synchronizer.
\<close>

record node =
  node_id :: NodeID
  syncView :: View
  executedBlocks :: "Block list"
  effectiveView :: View

text \<open>\<open>twins.View\<close>: the leader and the partitions of one view; a \<open>NodeSet\<close> is a set of network ids.\<close>

record twins_View =
  Leader :: ID
  Partitions :: "nat set list"

text \<open>The dynamic types of the messages the configuration sends (\<open>reflect.TypeOf(message)\<close>).\<close>

datatype msg_type = ProposeMsg | VoteMsg | HashMsg | NewViewMsg | TimeoutMsg

text \<open>
  \<open>replicas\<close> lists the entries of the Go map in the order a \<open>range\<close> loop visits them
  (any order; no replica id twice).
\<close>

record Network =
  nodes :: "nat \<rightharpoonup> node"
  replicas :: "(ID \<times> node list) list"
  views :: "twins_View list"
  dropTypes :: "msg_type set"

text \<open>
  \<open>shouldDrop\<close>. The index \<open>i\<close> is a Go \<open>int\<close> (64 bits): \<open>-1\<close> plus the view
  converted from \<open>uint64\<close>, which keeps the bits; it is read as a signed number.
\<close>

definition shouldDrop :: "Network \<Rightarrow> nat \<Rightarrow> nat \<Rightarrow> msg_type \<Rightarrow> panic + bool" where
  "shouldDrop n sender receiver message =
     (case nodes n sender of
        None \<Rightarrow> Inl (SenderNotFound sender)
      | Some nd \<Rightarrow>
          (let i = (if effectiveView nd > syncView nd
                    then (-1 :: 64 word) + effectiveView nd
                    else (-1 :: 64 word) + syncView nd)
           in if sint i < 0 then Inr False
              else if int (length (views n)) \<le> sint i then Inr True
              else if list_ex (\<lambda>partition. sender \<in> partition \<and> receiver \<in> partition)
                        (Partitions (views n ! nat (sint i)))
                   then Inr False
              else Inr (message \<in> dropTypes n)))"

text \<open>
  \<open>timeoutManager.advance\<close>, on the fields it touches: the countdown, and the node's
  effective view. The third component is the view of the \<open>TimeoutEvent\<close> it adds to the
  event loop, if any.
\<close>

record timeoutManager =
  countdown :: int
  timeout :: int

definition advance :: "timeoutManager \<Rightarrow> node \<Rightarrow> timeoutManager \<times> node \<times> View option" where
  "advance tm nd =
     (let tm1 = tm\<lparr>countdown := countdown tm - 1\<rparr>
      in if countdown tm1 = 0 then
           (let view = syncView nd
            in (tm1\<lparr>countdown := timeout tm1\<rparr>,
                (if effectiveView nd \<le> view then nd\<lparr>effectiveView := view + 1\<rparr> else nd),
                Some view))
         else (tm1, nd, None))"

text \<open>
  The inner loop of \<open>checkCommits\<close> for one index \<open>i\<close>: \<open>noCommits\<close> and the map
  \<open>commitCount\<close> after the loop over the replicas.
\<close>

fun countCommits :: "(ID \<times> node list) list \<Rightarrow> nat \<Rightarrow> bool \<times> (Hash, nat) mapping
     \<Rightarrow> bool \<times> (Hash, nat) mapping" where
  "countCommits [] i acc = acc"
| "countCommits ((rid, replica) # rest) i (noCommits, commitCount) =
     (if length replica \<noteq> 1 then countCommits rest i (noCommits, commitCount)
      else if length (executedBlocks (replica ! 0)) \<le> i
           then countCommits rest i (noCommits, commitCount)
      else (let h = Hash (executedBlocks (replica ! 0) ! i)
            in countCommits rest i
                 (False, Mapping.update h (Mapping.lookup_default 0 commitCount h + 1) commitCount)))"

text \<open>The longest executed chain of a replica without twins; it bounds the outer loop.\<close>

definition maxExecuted :: "(ID \<times> node list) list \<Rightarrow> nat" where
  "maxExecuted rs =
     fold max (map (\<lambda>(rid, replica).
                 if length replica = 1 then length (executedBlocks (replica ! 0)) else 0) rs) 0"

function checkCommits_loop :: "Network \<Rightarrow> nat \<Rightarrow> bool \<times> nat" where
  "checkCommits_loop net i =
     (if fst (countCommits (replicas net) i (True, Mapping.empty)) then (True, i)
      else if Mapping.size (snd (countCommits (replicas net) i (True, Mapping.empty))) \<noteq> 1
           then (False, i)
      else checkCommits_loop net (i + 1))"
  by pat_completeness auto
termination
proof (relation "measure (\<lambda>(net, i). Suc (maxExecuted (replicas net)) - i)")
  show "wf (measure (\<lambda>(net, i). Suc (maxExecuted (replicas net)) - i))" by simp
next
  fix net :: Network and i :: nat
  assume nc: "\<not> fst (countCommits (replicas net) i (True, Mapping.empty))"
  have fm: "\<And>xs (a::nat). a \<le> fold max xs a"
  proof -
    fix xs :: "nat list" and a :: nat
    show "a \<le> fold max xs a"
    proof (induction xs arbitrary: a)
      case Nil
      show ?case by simp
    next
      case (Cons x xs)
      have "max x a \<le> fold max xs (max x a)" by (rule Cons.IH)
      then show ?case by simp
    qed
  qed
  have gen: "\<And>rs acc a. \<not> fst (countCommits rs i acc) \<Longrightarrow> fst acc \<Longrightarrow>
      i < fold max (map (\<lambda>(rid, replica).
                 if length replica = 1 then length (executedBlocks (replica ! 0)) else 0) rs) a"
  proof -
    fix rs :: "(ID \<times> node list) list" and acc :: "bool \<times> (Hash, nat) mapping" and a :: nat
    show "\<not> fst (countCommits rs i acc) \<Longrightarrow> fst acc \<Longrightarrow>
      i < fold max (map (\<lambda>(rid, replica).
                 if length replica = 1 then length (executedBlocks (replica ! 0)) else 0) rs) a"
    proof (induction rs arbitrary: acc a)
      case Nil
      then show ?case by simp
    next
      case (Cons r rs)
      obtain rid replica where r: "r = (rid, replica)" by (cases r)
      obtain nc0 cc where acc: "acc = (nc0, cc)" by (cases acc)
      show ?case
      proof (cases "length replica = 1 \<and> i < length (executedBlocks (replica ! 0))")
        case True
        have "i < max (length (executedBlocks (replica ! 0))) a"
          using True by (simp add: less_max_iff_disj)
        also have "\<dots> \<le> fold max (map (\<lambda>(rid, replica).
                 if length replica = 1 then length (executedBlocks (replica ! 0)) else 0) rs)
                 (max (length (executedBlocks (replica ! 0))) a)"
          by (rule fm)
        finally show ?thesis using True r by simp
      next
        case False
        then have "countCommits (r # rs) i acc = countCommits rs i acc"
          using r acc by auto
        then have "i < fold max (map (\<lambda>(rid, replica).
                 if length replica = 1 then length (executedBlocks (replica ! 0)) else 0) rs)
                 (max (if length replica = 1 then length (executedBlocks (replica ! 0)) else 0) a)"
          using Cons.IH[of acc] Cons.prems by simp
        then show ?thesis using r by simp
      qed
    qed
  qed
  have "i < maxExecuted (replicas net)"
    unfolding maxExecuted_def using gen[OF nc] by simp
  then show "((net, i + 1), (net, i)) \<in> measure (\<lambda>(net, i). Suc (maxExecuted (replicas net)) - i)"
    by simp
qed

declare checkCommits_loop.simps [simp del]

definition checkCommits :: "Network \<Rightarrow> bool \<times> nat" where
  "checkCommits net = checkCommits_loop net 0"

text \<open>
  The hashes at position \<open>i\<close> of the executed chains of the replicas that have exactly
  one node and have executed more than \<open>i\<close> blocks.
\<close>

definition hashesAt :: "(ID \<times> node list) list \<Rightarrow> nat \<Rightarrow> Hash set" where
  "hashesAt rs i =
     {Hash (executedBlocks (replica ! 0) ! i) | rid replica.
        (rid, replica) \<in> set rs \<and> length replica = 1
        \<and> i < length (executedBlocks (replica ! 0))}"

text \<open>
  The drop decision as the specification words it, on unbounded integers: the index is
  the effective view minus one, an index outside the view plan drops the message, a
  partition with both ends keeps it, and otherwise the drop set decides.
\<close>

definition spec_drop :: "Network \<Rightarrow> node \<Rightarrow> nat \<Rightarrow> nat \<Rightarrow> msg_type \<Rightarrow> bool" where
  "spec_drop n nd sender receiver message =
     (let effective = max (unat (syncView nd)) (unat (effectiveView nd));
          i = int effective - 1
      in if i < 0 \<or> int (length (views n)) \<le> i then True
         else if list_ex (\<lambda>partition. sender \<in> partition \<and> receiver \<in> partition)
                   (Partitions (views n ! nat i))
              then False
         else message \<in> dropTypes n)"

subsection \<open>A concrete twins network\<close>

text \<open>
  Four replicas, replica 1 twinned as the network nodes 1 and 5, with the partition plan
  \<open>{{1,2,3},{5,4}}\<close> for view 1 and \<open>{{5,2,3},{1,4}}\<close> for view 2, and the drop set
  that \<open>ExecuteScenario\<close> passes. The parameters are the synchronizer view of every
  node and the hashes of the blocks the replicas 2, 3 and 4 have executed.
\<close>

definition mkBlock :: "Hash \<Rightarrow> Block" where
  "mkBlock h = \<lparr>Hash = h, Parent = [], Proposer = 1, View = 1, QuorumCert = \<lparr>Signature = None\<rparr>\<rparr>"

definition mkNode :: "ID \<Rightarrow> nat \<Rightarrow> View \<Rightarrow> Hash list \<Rightarrow> node" where
  "mkNode rid nid v hs =
     \<lparr>node_id = \<lparr>ReplicaID = rid, NetworkID = nid\<rparr>, syncView = v,
      executedBlocks = map mkBlock hs, effectiveView = 0\<rparr>"

definition twins_views :: "twins_View list" where
  "twins_views = [\<lparr>Leader = 1, Partitions = [{1, 2, 3}, {5, 4}]\<rparr>,
                  \<lparr>Leader = 2, Partitions = [{5, 2, 3}, {1, 4}]\<rparr>]"

definition twins_net :: "View \<Rightarrow> Hash list \<Rightarrow> Hash list \<Rightarrow> Hash list \<Rightarrow> Network" where
  "twins_net v h2 h3 h4 =
     \<lparr>nodes = [1 \<mapsto> mkNode 1 1 v [''X''], 5 \<mapsto> mkNode 1 5 v [''Y''],
               2 \<mapsto> mkNode 2 2 v h2, 3 \<mapsto> mkNode 3 3 v h3, 4 \<mapsto> mkNode 4 4 v h4],
      replicas = [(1, [mkNode 1 1 v [''X''], mkNode 1 5 v [''Y'']]),
                  (2, [mkNode 2 2 v h2]), (3, [mkNode 3 3 v h3]), (4, [mkNode 4 4 v h4])],
      views = twins_views,
      dropTypes = {ProposeMsg, VoteMsg, HashMsg, NewViewMsg, TimeoutMsg}\<rparr>"

section \<open>Carousel leader rotation (leaderrotation/carousel.go)\<close>

text \<open>
  What \<open>GetLeader\<close> reads through \<open>c.mods\<close>: the committed block, the chain length of
  the consensus rules, the number of replicas, the block store (\<open>BlockChain().Get\<close>
  as a lookup by hash) and the genesis block (\<open>consensus.GetGenesis()\<close>).
\<close>

record Modules =
  CommittedBlock :: Block
  ChainLength :: int
  Len :: nat
  BlockChain :: "Hash \<rightharpoonup> Block"
  Genesis :: Block

text \<open>
  The generator \<open>c.rnd\<close> is the stream of the numbers its \<open>Int()\<close> will return, all
  non-negative; a call takes the head and leaves the tail. \<open>NewCarousel\<close> seeds the
  generator from the wall clock, so the stream is any stream.
\<close>

record carousel =
  mods :: Modules
  rnd :: "nat stream"

definition rnd_Int :: "nat stream \<Rightarrow> nat \<times> nat stream" where
  "rnd_Int r = (shd r, stl r)"

text \<open>
  Modelled from the spec: \<open>hotstuff.NumFaulty\<close> is not among the modelled files; the
  specification gives \<open>f\<close> as the floor of \<open>(N - 1) / 3\<close>.
\<close>

definition NumFaulty :: "int \<Rightarrow> int" where
  "NumFaulty n = (n - 1) div 3"

text \<open>
  The loop that collects \<open>lastAuthors\<close>. \<open>block\<close> is \<open>None\<close> when \<open>Get\<close> did not find
  the parent (\<open>ok = false\<close>); blocks are compared by value where the source compares
  pointers.
\<close>

function carousel_loop ::
  "(Hash \<rightharpoonup> Block) \<Rightarrow> Block \<Rightarrow> int \<Rightarrow> Block option \<Rightarrow> int \<Rightarrow> ID set \<Rightarrow> ID set" where
  "carousel_loop bc genesis f block i lastAuthors =
     (case block of
        None \<Rightarrow> lastAuthors
      | Some b \<Rightarrow>
          if i < f \<and> b \<noteq> genesis
          then carousel_loop bc genesis f (bc (Parent b)) (i + 1) (insert (Proposer b) lastAuthors)
          else lastAuthors)"
  by pat_completeness auto
termination
  by (relation "measure (\<lambda>(bc, genesis, f, block, i, lastAuthors). nat (f - i))") auto

declare carousel_loop.simps [simp del]

text \<open>
  \<open>GetLeader\<close>. \<open>chooseRoundRobin\<close> is defined in another file of the package and is
  the parameter \<open>rr\<close>. Indexing \<open>candidates\<close> by a remainder modulo its length panics
  when the list is empty.
\<close>

definition GetLeader ::
  "(View \<Rightarrow> int \<Rightarrow> ID) \<Rightarrow> carousel \<Rightarrow> View \<Rightarrow> panic + (ID \<times> carousel)" where
  "GetLeader rr c round =
     (let commitHead = CommittedBlock (mods c)
      in case Signature (QuorumCert commitHead) of
           None \<Rightarrow> Inr (rr round (int (Len (mods c))), c)
         | Some sig \<Rightarrow>
             if View commitHead \<noteq> round - word_of_int (ChainLength (mods c))
             then Inr (rr round (int (Len (mods c))), c)
             else
               (let f = NumFaulty (int (Len (mods c)));
                    lastAuthors = carousel_loop (BlockChain (mods c)) (Genesis (mods c)) f
                                    (Some commitHead) 0 {};
                    candidates = filter (\<lambda>i. i \<notin> lastAuthors) (Participants sig);
                    (r, rnd') = rnd_Int (rnd c)
                in if candidates = [] then Inl IntegerDivideByZero
                   else Inr (candidates ! (r mod length candidates), c\<lparr>rnd := rnd'\<rparr>)))"

text \<open>
  The chain of blocks the loop visits, as a list: at most \<open>n\<close> blocks from \<open>block\<close>
  along the parent links, up to the genesis block or a parent the store does not have.
\<close>

fun walked :: "(Hash \<rightharpoonup> Block) \<Rightarrow> Block \<Rightarrow> nat \<Rightarrow> Block option \<Rightarrow> Block list" where
  "walked bc genesis 0 block = []"
| "walked bc genesis (Suc n) None = []"
| "walked bc genesis (Suc n) (Some b) =
     (if b = genesis then [] else b # walked bc genesis n (bc (Parent b)))"

text \<open>
  The blocks the loop of \<open>GetLeader\<close> walks, and \<open>lastAuthors\<close> in closed form: the
  proposers of these blocks.
\<close>

definition walkedFrom :: "carousel \<Rightarrow> Block list" where
  "walkedFrom c =
     walked (BlockChain (mods c)) (Genesis (mods c))
       (nat (NumFaulty (int (Len (mods c))))) (Some (CommittedBlock (mods c)))"

definition lastAuthorsOf :: "carousel \<Rightarrow> ID set" where
  "lastAuthorsOf c = Proposer ` set (walkedFrom c)"




subsection \<open>A concrete carousel\<close>

text \<open>
  Modelled from the spec: \<open>chooseRoundRobin\<close> is defined in a file of the package that
  is not among the modelled ones; the specification gives the round-robin leader of
  view \<open>v\<close> among \<open>N\<close> replicas as position \<open>(v - 1) mod N\<close> in a stable ordering of the
  replica ids, here the ids \<open>1, ..., N\<close> in ascending order. It is used for the
  parameter \<open>rr\<close> in the concrete instances only.
\<close>

definition chooseRoundRobin :: "View \<Rightarrow> int \<Rightarrow> ID" where
  "chooseRoundRobin view n = nat ((uint view - 1) mod n) + 1"

text \<open>
  Four replicas, chain length three; the committed block has view 1, was proposed by
  replica 1 over the genesis block, and its certificate has the participants 1, 2, 3.
  The generator of \<open>carousel_at k\<close> returns \<open>k, k + 1, k + 2, ...\<close>.
\<close>

definition genesisBlock :: Block where
  "genesisBlock = \<lparr>Hash = ''G'', Parent = [], Proposer = 0, View = 0,
                    QuorumCert = \<lparr>Signature = None\<rparr>\<rparr>"

definition headBlock :: Block where
  "headBlock = \<lparr>Hash = ''H1'', Parent = ''G'', Proposer = 1, View = 1,
                 QuorumCert = \<lparr>Signature = Some \<lparr>ToBytes = ''q'', Participants = [1, 2, 3]\<rparr>\<rparr>\<rparr>"

definition carousel_at :: "nat \<Rightarrow> carousel" where
  "carousel_at k =
     \<lparr>mods = \<lparr>CommittedBlock = headBlock, ChainLength = 3, Len = 4,
               BlockChain = [''G'' \<mapsto> genesisBlock, ''H1'' \<mapsto> headBlock],
               Genesis = genesisBlock\<rparr>,
      rnd = siterate Suc k\<rparr>"



section \<open>Verification of the crypto cache\<close>

subsection \<open>Facts about lists\<close>

lemma sync_card: "cache_sync c \<Longrightarrow> card (entries c) = length (accessOrder c)"
  by (simp add: cache_sync_def distinct_card)

lemma set_butlast_distinct: "distinct xs \<Longrightarrow> xs \<noteq> [] \<Longrightarrow> set (butlast xs) = set xs - {last xs}"
  by (induction xs rule: rev_induct) auto

lemma filter_neq_remove1: "distinct xs \<Longrightarrow> filter (\<lambda>x. x \<noteq> k) xs = remove1 k xs"
  by (induction xs) (auto simp: remove1_idem)

lemma filter_neq_notin: "k \<notin> set xs \<Longrightarrow> filter (\<lambda>x. x \<noteq> k) xs = xs"
  by (induction xs) auto

lemma length_move: "k \<in> set xs \<Longrightarrow> length (k # remove1 k xs) = length xs"
  by (induction xs) auto

lemma take_full_butlast: "xs \<noteq> [] \<Longrightarrow> take (length xs) (k # xs) = k # butlast xs"
  by (induction xs arbitrary: k) auto

subsection \<open>One insertion, one lookup\<close>

text \<open>
  On a well-formed cache of capacity at least one an insertion never panics, and its
  effect on the access order is \<open>lru_push\<close>. With a capacity of zero or less every
  insertion of a new key panics: \<open>evict\<close> finds the list empty.
\<close>

lemma insert_order_hit:
  assumes "cache_sync c" "cache_bounded c" "k \<in> entries c"
  shows "cache_insert c k =
     Inr (c\<lparr>accessOrder := take (nat (capacity c)) (k # filter (\<lambda>x. x \<noteq> k) (accessOrder c))\<rparr>)"
proof -
  have d: "distinct (accessOrder c)" and e: "entries c = set (accessOrder c)"
    using assms(1) by (simp_all add: cache_sync_def)
  have f: "filter (\<lambda>x. x \<noteq> k) (accessOrder c) = remove1 k (accessOrder c)"
    using d by (rule filter_neq_remove1)
  have l: "length (k # remove1 k (accessOrder c)) = length (accessOrder c)"
    using assms(3) e by (intro length_move) simp
  have "length (k # remove1 k (accessOrder c)) \<le> nat (capacity c)"
    using l assms(2) unfolding cache_bounded_def by linarith
  then have t: "take (nat (capacity c)) (k # remove1 k (accessOrder c)) = k # remove1 k (accessOrder c)"
    by (rule take_all)
  show ?thesis
    using assms(3) unfolding cache_insert_def MoveToFront_def f t by simp
qed

lemma insert_order_miss:
  assumes "cache_sync c" "cache_bounded c" "1 \<le> capacity c" "k \<notin> entries c"
  shows "cache_insert c k =
     Inr (c\<lparr>accessOrder := take (nat (capacity c)) (k # filter (\<lambda>x. x \<noteq> k) (accessOrder c)),
            entries := set (take (nat (capacity c)) (k # filter (\<lambda>x. x \<noteq> k) (accessOrder c)))\<rparr>)"
proof -
  have d: "distinct (accessOrder c)" and e: "entries c = set (accessOrder c)"
    using assms(1) by (simp_all add: cache_sync_def)
  have f: "filter (\<lambda>x. x \<noteq> k) (accessOrder c) = accessOrder c"
    using assms(4) e by (intro filter_neq_notin) simp
  have cd: "card (entries c) = length (accessOrder c)" using assms(1) by (rule sync_card)
  show ?thesis
  proof (cases "int (length (accessOrder c)) < capacity c")
    case True
    then have "length (k # accessOrder c) \<le> nat (capacity c)" by simp
    then have t: "take (nat (capacity c)) (k # accessOrder c) = k # accessOrder c"
      by (rule take_all)
    have ev: "evict c = Inr c" using True by (simp add: evict_def cd)
    show ?thesis using assms(4) e
      unfolding cache_insert_def ev f t by simp
  next
    case False
    then have len: "nat (capacity c) = length (accessOrder c)"
      using assms(2) unfolding cache_bounded_def by linarith
    then have ne: "accessOrder c \<noteq> []" using assms(3) by auto
    have t: "take (nat (capacity c)) (k # accessOrder c) = k # butlast (accessOrder c)"
      unfolding len using ne by (rule take_full_butlast)
    have ev: "evict c = Inr (c\<lparr>accessOrder := butlast (accessOrder c),
                           entries := entries c - {last (accessOrder c)}\<rparr>)"
      using False ne by (simp add: evict_def cd Let_def split: list.splits)
    have sb: "set (butlast (accessOrder c)) = entries c - {last (accessOrder c)}"
      using d ne e by (simp add: set_butlast_distinct)
    show ?thesis using assms(4)
      unfolding cache_insert_def ev f t by (simp add: sb)
  qed
qed

lemma insert_order:
  assumes "cache_sync c" "cache_bounded c" "1 \<le> capacity c"
  shows "cache_insert c k =
     Inr (c\<lparr>accessOrder := lru_push (nat (capacity c)) k (accessOrder c),
            entries := set (lru_push (nat (capacity c)) k (accessOrder c))\<rparr>)"
proof (cases "k \<in> entries c")
  case True
  have d: "distinct (accessOrder c)" and e: "entries c = set (accessOrder c)"
    using assms(1) by (simp_all add: cache_sync_def)
  have "length (k # remove1 k (accessOrder c)) = length (accessOrder c)"
    using True e by (intro length_move) simp
  moreover have "length (accessOrder c) \<le> nat (capacity c)"
    using assms(2) unfolding cache_bounded_def by linarith
  ultimately have "length (k # remove1 k (accessOrder c)) \<le> nat (capacity c)"
    by (simp only:)
  then have t: "lru_push (nat (capacity c)) k (accessOrder c) = k # remove1 k (accessOrder c)"
    unfolding lru_push_def filter_neq_remove1[OF d] by (rule take_all)
  have "set (k # remove1 k (accessOrder c)) = entries c"
    using True e d by auto
  then show ?thesis
    using insert_order_hit[OF assms(1,2) True] t unfolding lru_push_def by simp
next
  case False
  then show ?thesis
    using insert_order_miss[OF assms False] unfolding lru_push_def by simp
qed

lemma lru_push_distinct: "distinct xs \<Longrightarrow> distinct (lru_push n k xs)"
  unfolding lru_push_def by (rule distinct_take) simp

lemma lru_push_length: "length (lru_push n k xs) \<le> n"
  unfolding lru_push_def by simp

lemma insert_panics_at_zero:
  assumes "cache_sync c" "cache_bounded c" "capacity c \<le> 0"
  shows "cache_insert c k = Inl NilPointerDereference"
proof -
  have "length (accessOrder c) = 0" using assms(2,3) unfolding cache_bounded_def by linarith
  then have "accessOrder c = []" by simp
  moreover from this have "entries c = {}" using assms(1) unfolding cache_sync_def by simp
  ultimately show ?thesis using assms(3) by (simp add: cache_insert_def evict_def)
qed

lemma insert_preserves:
  assumes "cache_sync c" "cache_bounded c" "cache_insert c k = Inr c'"
  shows "cache_sync c' \<and> cache_bounded c' \<and> capacity c' = capacity c \<and> impl c' = impl c"
proof (cases "1 \<le> capacity c")
  case True
  have d: "distinct (accessOrder c)" using assms(1) by (simp add: cache_sync_def)
  have c': "c' = c\<lparr>accessOrder := lru_push (nat (capacity c)) k (accessOrder c),
            entries := set (lru_push (nat (capacity c)) k (accessOrder c))\<rparr>"
    using insert_order[OF assms(1,2) True, of k] assms(3) by simp
  have "int (length (lru_push (nat (capacity c)) k (accessOrder c))) \<le> capacity c"
    using lru_push_length[of "nat (capacity c)" k "accessOrder c"] True by linarith
  then show ?thesis
    unfolding c' cache_sync_def cache_bounded_def using lru_push_distinct[OF d] by simp
next
  case False
  then have "cache_insert c k = Inl NilPointerDereference"
    using insert_panics_at_zero[OF assms(1,2)] by simp
  then show ?thesis using assms(3) by simp
qed

lemma insert_member: "cache_insert c k = Inr c' \<Longrightarrow> k \<in> entries c'"
  by (auto simp: cache_insert_def split: if_splits sum.splits)

lemma insert_entries_subset:
  "cache_insert c k = Inr c' \<Longrightarrow> entries c' \<subseteq> insert k (entries c) \<and> impl c' = impl c"
  by (auto simp: cache_insert_def evict_def Let_def split: if_splits sum.splits list.splits)

lemma check_preserves:
  assumes "cache_sync c" "cache_bounded c" "check c k = (b, c')"
  shows "cache_sync c' \<and> cache_bounded c' \<and> capacity c' = capacity c \<and> impl c' = impl c
         \<and> entries c' = entries c \<and> b = (k \<in> entries c)"
proof (cases "k \<in> entries c")
  case True
  have d: "distinct (accessOrder c)" and e: "entries c = set (accessOrder c)"
    using assms(1) by (simp_all add: cache_sync_def)
  have c': "c' = c\<lparr>accessOrder := k # remove1 k (accessOrder c)\<rparr>" and b: "b"
    using assms(3) True by (simp_all add: check_def MoveToFront_def)
  have "set (k # remove1 k (accessOrder c)) = entries c" using True e d by auto
  moreover have "length (k # remove1 k (accessOrder c)) = length (accessOrder c)"
    using True e by (intro length_move) simp
  ultimately show ?thesis
    using d assms(2) True b unfolding c' cache_sync_def cache_bounded_def by simp
next
  case False
  then show ?thesis using assms by (simp add: check_def)
qed

lemma check_entries:
  "check c k = (b, c') \<Longrightarrow> entries c' = entries c \<and> impl c' = impl c \<and> b = (k \<in> entries c)"
  by (auto simp: check_def split: if_splits)

subsection \<open>Well-formedness is preserved\<close>

lemma NewCache_wf: "0 \<le> cap \<Longrightarrow> cache_wf (NewCache i cap)"
  by (simp add: cache_wf_def cache_sync_def cache_bounded_def NewCache_def)

lemma insert_wf:
  "cache_wf c \<Longrightarrow> cache_insert c k = Inr c' \<Longrightarrow>
     cache_wf c' \<and> capacity c' = capacity c \<and> impl c' = impl c"
  unfolding cache_wf_def using insert_preserves by blast

lemma insert_total:
  "cache_wf c \<Longrightarrow> 1 \<le> capacity c \<Longrightarrow> \<exists>c'. cache_insert c k = Inr c'"
  unfolding cache_wf_def using insert_order by blast

lemma check_wf:
  "cache_wf c \<Longrightarrow> check c k = (b, c') \<Longrightarrow>
     cache_wf c' \<and> capacity c' = capacity c \<and> impl c' = impl c \<and> entries c' = entries c"
  unfolding cache_wf_def using check_preserves by blast

lemma Sign_wf:
  assumes "cache_wf c" "cache_Sign H c m = Inr (r, calls, c')"
  shows "cache_wf c' \<and> capacity c' = capacity c \<and> impl c' = impl c"
proof (cases "Sign (impl c) m")
  case (Inl err)
  then show ?thesis using assms by (simp add: cache_Sign_def)
next
  case (Inr sig)
  then have "cache_insert c (verify_key H sig m) = Inr c'"
    using assms(2) by (simp add: cache_Sign_def split: sum.splits)
  then show ?thesis using insert_wf[OF assms(1)] by blast
qed

lemma Verify_wf:
  assumes "cache_wf c" "cache_Verify H c s m = Inr (r, calls, c')"
  shows "cache_wf c' \<and> capacity c' = capacity c \<and> impl c' = impl c"
proof -
  obtain hit c1 where ch: "check c (verify_key H s m) = (hit, c1)" by fastforce
  have c1: "cache_wf c1 \<and> capacity c1 = capacity c \<and> impl c1 = impl c \<and> entries c1 = entries c"
    using check_wf[OF assms(1) ch] .
  show ?thesis
  proof (cases "hit \<or> \<not> Verify (impl c1) s m")
    case True
    then have "c' = c1" using assms(2) ch by (auto simp: cache_Verify_def split: if_splits)
    then show ?thesis using c1 by simp
  next
    case False
    then have "cache_insert c1 (verify_key H s m) = Inr c'"
      using assms(2) ch by (simp add: cache_Verify_def split: sum.splits)
    then show ?thesis using insert_wf[of c1] c1 by metis
  qed
qed

lemma BatchVerify_wf:
  assumes "cache_wf c" "cache_BatchVerify H c s b = Inr (r, calls, c')"
  shows "cache_wf c' \<and> capacity c' = capacity c \<and> impl c' = impl c"
proof -
  obtain hit c1 where ch: "check c (batch_key H s b) = (hit, c1)" by fastforce
  have c1: "cache_wf c1 \<and> capacity c1 = capacity c \<and> impl c1 = impl c \<and> entries c1 = entries c"
    using check_wf[OF assms(1) ch] .
  show ?thesis
  proof (cases "hit \<or> \<not> BatchVerify (impl c1) s b")
    case True
    then have "c' = c1" using assms(2) ch by (auto simp: cache_BatchVerify_def split: if_splits)
    then show ?thesis using c1 by simp
  next
    case False
    then have "cache_insert c1 (batch_key H s b) = Inr c'"
      using assms(2) ch by (simp add: cache_BatchVerify_def split: sum.splits)
    then show ?thesis using insert_wf[of c1] c1 by metis
  qed
qed

lemma apply_op_wf:
  assumes "cache_wf c" "apply_cache_op H c x = Inr c'"
  shows "cache_wf c' \<and> capacity c' = capacity c \<and> impl c' = impl c"
proof (cases x)
  case (OpSign m)
  then obtain r calls where "cache_Sign H c m = Inr (r, calls, c')"
    using assms(2) by (auto split: sum.splits)
  then show ?thesis using Sign_wf[OF assms(1)] by blast
next
  case (OpVerify s m)
  then obtain r calls where "cache_Verify H c s m = Inr (r, calls, c')"
    using assms(2) by (auto split: sum.splits)
  then show ?thesis using Verify_wf[OF assms(1)] by blast
next
  case (OpBatchVerify s b)
  then obtain r calls where "cache_BatchVerify H c s b = Inr (r, calls, c')"
    using assms(2) by (auto split: sum.splits)
  then show ?thesis using BatchVerify_wf[OF assms(1)] by blast
qed

lemma run_ops_wf:
  "cache_wf c \<Longrightarrow> run_cache_ops H c ops = Inr c' \<Longrightarrow>
     cache_wf c' \<and> capacity c' = capacity c \<and> impl c' = impl c"
proof (induction ops arbitrary: c)
  case Nil
  then show ?case by simp
next
  case (Cons x xs)
  then obtain c1 where s: "apply_cache_op H c x = Inr c1" and r: "run_cache_ops H c1 xs = Inr c'"
    by (auto split: sum.splits)
  have "cache_wf c1 \<and> capacity c1 = capacity c \<and> impl c1 = impl c"
    using apply_op_wf[OF Cons.prems(1) s] .
  then show ?case using Cons.IH[OF _ r] by simp
qed

lemma Verify_total:
  assumes "cache_wf c" "1 \<le> capacity c"
  shows "\<exists>r calls c'. cache_Verify H c s m = Inr (r, calls, c')"
proof -
  obtain hit c1 where ch: "check c (verify_key H s m) = (hit, c1)" by fastforce
  have c1: "cache_wf c1 \<and> capacity c1 = capacity c \<and> impl c1 = impl c \<and> entries c1 = entries c"
    using check_wf[OF assms(1) ch] .
  then obtain c2 where "cache_insert c1 (verify_key H s m) = Inr c2"
    using insert_total[of c1] assms(2) by metis
  then show ?thesis using ch by (auto simp add: cache_Verify_def)
qed

lemma BatchVerify_total:
  assumes "cache_wf c" "1 \<le> capacity c"
  shows "\<exists>r calls c'. cache_BatchVerify H c s b = Inr (r, calls, c')"
proof -
  obtain hit c1 where ch: "check c (batch_key H s b) = (hit, c1)" by fastforce
  have c1: "cache_wf c1 \<and> capacity c1 = capacity c \<and> impl c1 = impl c \<and> entries c1 = entries c"
    using check_wf[OF assms(1) ch] .
  then obtain c2 where "cache_insert c1 (batch_key H s b) = Inr c2"
    using insert_total[of c1] assms(2) by metis
  then show ?thesis using ch by (auto simp add: cache_BatchVerify_def)
qed

lemma Sign_total:
  assumes "cache_wf c" "1 \<le> capacity c"
  shows "\<exists>r calls c'. cache_Sign H c m = Inr (r, calls, c')"
proof (cases "Sign (impl c) m")
  case (Inl err)
  then show ?thesis by (simp add: cache_Sign_def)
next
  case (Inr sig)
  obtain c2 where "cache_insert c (verify_key H sig m) = Inr c2"
    using insert_total[OF assms] by metis
  then show ?thesis using Inr by (simp add: cache_Sign_def)
qed

lemma apply_op_total:
  assumes "cache_wf c" "1 \<le> capacity c"
  shows "\<exists>c'. apply_cache_op H c x = Inr c'"
proof (cases x)
  case (OpSign m)
  then show ?thesis using Sign_total[OF assms, of H m] by auto
next
  case (OpVerify s m)
  then show ?thesis using Verify_total[OF assms, of H s m] by auto
next
  case (OpBatchVerify s b)
  then show ?thesis using BatchVerify_total[OF assms, of H s b] by auto
qed

lemma run_ops_total:
  "cache_wf c \<Longrightarrow> 1 \<le> capacity c \<Longrightarrow> \<exists>c'. run_cache_ops H c ops = Inr c'"
proof (induction ops arbitrary: c)
  case Nil
  then show ?case by simp
next
  case (Cons x xs)
  obtain c1 where s: "apply_cache_op H c x = Inr c1"
    using apply_op_total[OF Cons.prems] by blast
  have "cache_wf c1 \<and> capacity c1 = capacity c \<and> impl c1 = impl c"
    using apply_op_wf[OF Cons.prems(1) s] .
  then obtain c' where "run_cache_ops H c1 xs = Inr c'"
    using Cons.IH[of c1] Cons.prems(2) by auto
  then show ?case using s by simp
qed

subsection \<open>The concrete primitive\<close>

lemma toy_hash_length: "length (toy_hash m) = 32"
  by (simp add: toy_hash_def)

lemma toy_hash_nonzero: "toy_hash m \<noteq> zero_Hash"
proof
  assume "toy_hash m = zero_Hash"
  then have "hd (toy_hash m) = hd zero_Hash" by simp
  then show False by (simp add: toy_hash_def zero_Hash_def)
qed

lemma toy_sign_ok: "Sign toy_impl m = Inr sig \<Longrightarrow> Verify toy_impl sig m"
  by (auto simp: toy_impl_def split: if_splits)

lemma toy_key_fn:
  "toy_hash m = toy_hash m' \<Longrightarrow> ToBytes s = ToBytes s' \<Longrightarrow> Verify toy_impl s m = Verify toy_impl s' m'"
  by (simp add: toy_impl_def)

lemma batchA_ok: "BatchVerify toy_impl sigA batchA"
  by code_simp

lemma batchB_rejected: "\<not> BatchVerify toy_impl sigA batchB"
  by code_simp

subsection \<open>A verification after a signature is a cache hit\<close>

text \<open>
  C9. If \<open>cache.Sign(m)\<close> succeeds and returns \<open>sig\<close>, then \<open>cache.Verify(sig, m)\<close>
  called next returns true and makes no call to the primitive: the key that \<open>Sign\<close>
  inserted is found, and the lookup only moves it to the front.
\<close>

theorem Sign_then_Verify_hits:
  assumes "cache_Sign H c m = Inr (Inr sig, calls, c')"
  shows "cache_Verify H c' sig m =
           Inr (True, [], c'\<lparr>accessOrder := MoveToFront (verify_key H sig m) (accessOrder c')\<rparr>)"
proof -
  have "cache_insert c (verify_key H sig m) = Inr c'"
    using assms by (auto simp: cache_Sign_def split: sum.splits)
  then have "verify_key H sig m \<in> entries c'" by (rule insert_member)
  then show ?thesis by (simp add: cache_Verify_def check_def)
qed

text \<open>
  An instance of C9: the message \<open>0xDEADBEEF\<close> on a fresh cache of capacity 100.
\<close>

theorem Sign_then_Verify_hits_witness:
  "\<exists>sig c'. cache_Sign toy_hash (NewCache toy_impl 100) deadbeef = Inr (Inr sig, [CallSign deadbeef], c')
     \<and> cache_Verify toy_hash c' sig deadbeef =
         Inr (True, [], c'\<lparr>accessOrder := MoveToFront (verify_key toy_hash sig deadbeef) (accessOrder c')\<rparr>)"
proof -
  define sig0 where "sig0 = \<lparr>ToBytes = toy_hash deadbeef, Participants = [1]\<rparr>"
  define c0 where "c0 = \<lparr>impl = toy_impl, capacity = 100,
     entries = {verify_key toy_hash sig0 deadbeef}, accessOrder = [verify_key toy_hash sig0 deadbeef]\<rparr>"
  have s: "Sign toy_impl deadbeef = Inr sig0"
    by (simp add: toy_impl_def deadbeef_def sig0_def)
  have e: "cache_Sign toy_hash (NewCache toy_impl 100) deadbeef = Inr (Inr sig0, [CallSign deadbeef], c0)"
    by (simp add: cache_Sign_def s NewCache_def cache_insert_def evict_def c0_def)
  show ?thesis using Sign_then_Verify_hits[OF e] e by blast
qed

subsection \<open>The size of the cache\<close>

text \<open>
  C8, as amended. For every capacity that is not negative and every sequence of
  \<open>Sign\<close>, \<open>Verify\<close> and \<open>BatchVerify\<close> operations on a new cache, every state the
  sequence reaches has at most \<open>capacity\<close> entries; in such a state an insertion or
  lookup of a key that is present only moves the key to the front, and with a capacity
  of at least one an insertion of a new key at size = capacity removes the key at the
  back of the access order first. With a capacity of at least one no operation panics.
\<close>

theorem cache_bounded_by_capacity:
  assumes "0 \<le> cap"
  shows "(\<forall>c. run_cache_ops H (NewCache i cap) ops = Inr c \<longrightarrow>
            int (card (entries c)) \<le> cap
          \<and> (\<forall>key. key \<in> entries c \<longrightarrow>
                 cache_insert c key = Inr (c\<lparr>accessOrder := key # remove1 key (accessOrder c)\<rparr>)
               \<and> check c key = (True, c\<lparr>accessOrder := key # remove1 key (accessOrder c)\<rparr>))
          \<and> (\<forall>key. key \<notin> entries c \<and> int (card (entries c)) = cap \<and> 1 \<le> cap \<longrightarrow>
                 cache_insert c key =
                   Inr (c\<lparr>accessOrder := key # butlast (accessOrder c),
                          entries := insert key (entries c - {last (accessOrder c)})\<rparr>)))
       \<and> (1 \<le> cap \<longrightarrow> (\<exists>c. run_cache_ops H (NewCache i cap) ops = Inr c))"
proof (intro conjI allI impI)
  fix c assume r: "run_cache_ops H (NewCache i cap) ops = Inr c"
  have wf0: "cache_wf (NewCache i cap)" using assms by (rule NewCache_wf)
  have wf: "cache_wf c" and cap: "capacity c = cap"
    using run_ops_wf[OF wf0 r] by (simp_all add: NewCache_def)
  have s: "cache_sync c" and b: "cache_bounded c" using wf by (simp_all add: cache_wf_def)
  show "int (card (entries c)) \<le> cap"
    using sync_card[OF s] b cap by (simp add: cache_bounded_def)
  { fix key assume k: "key \<in> entries c"
    show "cache_insert c key = Inr (c\<lparr>accessOrder := key # remove1 key (accessOrder c)\<rparr>)"
      using k by (simp add: cache_insert_def MoveToFront_def)
    show "check c key = (True, c\<lparr>accessOrder := key # remove1 key (accessOrder c)\<rparr>)"
      using k by (simp add: check_def MoveToFront_def)
  }
  { fix key assume k: "key \<notin> entries c \<and> int (card (entries c)) = cap \<and> 1 \<le> cap"
    then have ne: "accessOrder c \<noteq> []" using sync_card[OF s] by auto
    have e: "entries c = set (accessOrder c)" using s by (simp add: cache_sync_def)
    show "cache_insert c key =
                   Inr (c\<lparr>accessOrder := key # butlast (accessOrder c),
                          entries := insert key (entries c - {last (accessOrder c)})\<rparr>)"
      using k ne cap by (simp add: cache_insert_def evict_def Let_def split: list.splits)
  }
next
  assume "1 \<le> cap"
  moreover have "cache_wf (NewCache i cap)" using assms by (rule NewCache_wf)
  ultimately show "\<exists>c. run_cache_ops H (NewCache i cap) ops = Inr c"
    using run_ops_total[of "NewCache i cap" H ops] by (simp add: NewCache_def)
qed

text \<open>
  An instance of C8: two signatures on a cache of capacity one; only the key of the
  second remains.
\<close>

theorem cache_bounded_by_capacity_witness:
  "\<exists>c. run_cache_ops toy_hash (NewCache toy_impl 1) [OpSign ''a'', OpSign ''b''] = Inr c
      \<and> accessOrder c = [verify_key toy_hash \<lparr>ToBytes = toy_hash ''b'', Participants = [1]\<rparr> ''b'']
      \<and> int (card (entries c)) \<le> 1"
proof -
  have e: "case run_cache_ops toy_hash (NewCache toy_impl 1) [OpSign ''a'', OpSign ''b''] of
             Inl p \<Rightarrow> False
           | Inr c \<Rightarrow> accessOrder c
                = [verify_key toy_hash \<lparr>ToBytes = toy_hash ''b'', Participants = [1]\<rparr> ''b'']"
    by code_simp
  then obtain c where r: "run_cache_ops toy_hash (NewCache toy_impl 1) [OpSign ''a'', OpSign ''b''] = Inr c"
    and a: "accessOrder c = [verify_key toy_hash \<lparr>ToBytes = toy_hash ''b'', Participants = [1]\<rparr> ''b'']"
    by (cases "run_cache_ops toy_hash (NewCache toy_impl 1) [OpSign ''a'', OpSign ''b'']") auto
  have le: "(0::int) \<le> 1" by simp
  note t = cache_bounded_by_capacity[OF le, of toy_hash toy_impl "[OpSign ''a'', OpSign ''b'']"]
  from t r have "int (card (entries c)) \<le> 1" by blast
  with r a show ?thesis by blast
qed

text \<open>
  C8 as stated fails for a negative capacity: the new cache with capacity \<open>-1\<close> has
  zero entries, which is more than its capacity.
\<close>

theorem negative_capacity_exceeded:
  "run_cache_ops toy_hash (NewCache toy_impl (- 1)) [] = Inr (NewCache toy_impl (- 1))
   \<and> \<not> int (card (entries (NewCache toy_impl (- 1)))) \<le> - 1"
  by (simp add: NewCache_def)

subsection \<open>Eviction\<close>

lemma insert_all_append:
  "insert_all c (xs @ ys) = (case insert_all c xs of Inl e \<Rightarrow> Inl e | Inr c' \<Rightarrow> insert_all c' ys)"
  by (induction xs arbitrary: c) (auto split: sum.splits)

lemma lru_push_prefix:
  assumes "k \<notin> set ks"
  shows "\<exists>rest'. lru_push n k (take n (rev ks @ rest)) = take n (rev (ks @ [k]) @ rest')"
proof (cases "n \<le> length ks")
  case True
  then have t: "take n (rev ks @ rest) = take n (rev ks)" by simp
  have "k \<notin> set (take n (rev ks))" using assms by (auto dest: in_set_takeD)
  then have f: "filter (\<lambda>x. x \<noteq> k) (take n (rev ks)) = take n (rev ks)"
    by (rule filter_neq_notin)
  have "take n (k # take n (rev ks)) = take n (k # rev ks)"
    by (cases n) (simp_all add: min_def take_take)
  then have "lru_push n k (take n (rev ks @ rest)) = take n (rev (ks @ [k]) @ [])"
    unfolding lru_push_def t f by simp
  then show ?thesis by blast
next
  case False
  then have t: "take n (rev ks @ rest) = rev ks @ take (n - length ks) rest" by simp
  have f: "filter (\<lambda>x. x \<noteq> k) (rev ks) = rev ks"
    using assms by (intro filter_neq_notin) simp
  have "lru_push n k (take n (rev ks @ rest)) =
        take n (rev (ks @ [k]) @ filter (\<lambda>x. x \<noteq> k) (take (n - length ks) rest))"
    unfolding lru_push_def t by (simp add: f)
  then show ?thesis by blast
qed

lemma insert_all_prefix:
  assumes "cache_wf c" "1 \<le> capacity c" "distinct ks"
  shows "\<exists>c' rest. insert_all c ks = Inr c' \<and> cache_wf c' \<and> capacity c' = capacity c
           \<and> accessOrder c' = take (nat (capacity c)) (rev ks @ rest)"
  using assms(3)
proof (induction ks rule: rev_induct)
  case Nil
  have "length (accessOrder c) \<le> nat (capacity c)"
    using assms(1) unfolding cache_wf_def cache_bounded_def by linarith
  then have "accessOrder c = take (nat (capacity c)) (rev [] @ accessOrder c)" by simp
  then show ?case using assms(1) by auto
next
  case (snoc k ks)
  then have d: "distinct ks" and nk: "k \<notin> set ks" by simp_all
  obtain c1 rest where r: "insert_all c ks = Inr c1" and wf1: "cache_wf c1"
    and cap1: "capacity c1 = capacity c"
    and ao: "accessOrder c1 = take (nat (capacity c)) (rev ks @ rest)"
    using snoc.IH[OF d] by blast
  have s1: "cache_sync c1" and b1: "cache_bounded c1" using wf1 by (simp_all add: cache_wf_def)
  have c1cap: "1 \<le> capacity c1" using cap1 assms(2) by simp
  define c2 where "c2 = c1\<lparr>accessOrder := lru_push (nat (capacity c1)) k (accessOrder c1),
            entries := set (lru_push (nat (capacity c1)) k (accessOrder c1))\<rparr>"
  have i: "cache_insert c1 k = Inr c2"
    unfolding c2_def by (rule insert_order[OF s1 b1 c1cap])
  have w2: "cache_wf c2 \<and> capacity c2 = capacity c1 \<and> impl c2 = impl c1"
    by (rule insert_wf[OF wf1 i])
  obtain rest' where "lru_push (nat (capacity c)) k (take (nat (capacity c)) (rev ks @ rest))
       = take (nat (capacity c)) (rev (ks @ [k]) @ rest')"
    using lru_push_prefix[OF nk] by blast
  then have "accessOrder c2 = take (nat (capacity c)) (rev (ks @ [k]) @ rest')"
    unfolding c2_def by (simp add: cap1 ao)
  moreover have "insert_all c (ks @ [k]) = Inr c2"
    by (simp add: insert_all_append r i)
  ultimately show ?case using w2 cap1 by auto
qed

text \<open>
  C7, as amended. For a cache of capacity \<open>cap\<close> of at least one, in any state reached
  by \<open>Sign\<close>, \<open>Verify\<close> and \<open>BatchVerify\<close> operations, a run of at least \<open>cap + 1\<close>
  insertions of pairwise distinct keys completes and leaves exactly the \<open>cap\<close> most
  recent keys, most recent first: the \<open>(cap + 1)\<close>-th most recent key is absent, and
  the \<open>n\<close>-th most recent key is present for every \<open>n\<close> from one to \<open>cap\<close>.
\<close>

theorem lru_eviction:
  assumes "run_cache_ops H (NewCache i cap) ops = Inr c" "1 \<le> cap" "distinct ks"
    "cap + 1 \<le> int (length ks)"
  shows "\<exists>c'. insert_all c ks = Inr c'
           \<and> accessOrder c' = take (nat cap) (rev ks)
           \<and> entries c' = set (take (nat cap) (rev ks))
           \<and> nth_most_recent ks (nat cap + 1) \<notin> entries c'
           \<and> (\<forall>n. 1 \<le> n \<and> n \<le> nat cap \<longrightarrow> nth_most_recent ks n \<in> entries c')"
proof -
  have wf0: "cache_wf (NewCache i cap)" using assms(2) by (intro NewCache_wf) simp
  have wf: "cache_wf c" and cap: "capacity c = cap"
    using run_ops_wf[OF wf0 assms(1)] by (simp_all add: NewCache_def)
  obtain c' rest where r: "insert_all c ks = Inr c'" and wf': "cache_wf c'"
    and ao: "accessOrder c' = take (nat cap) (rev ks @ rest)"
    using insert_all_prefix[OF wf _ assms(3)] assms(2) cap by auto
  have len: "nat cap < length ks" using assms(2,4) by linarith
  then have ao': "accessOrder c' = take (nat cap) (rev ks)" using ao by simp
  have e: "entries c' = set (take (nat cap) (rev ks))"
    using wf' ao' by (simp add: cache_wf_def cache_sync_def)
  have dr: "distinct (rev ks)" using assms(3) by simp
  have "rev ks ! nat cap \<notin> set (take (nat cap) (rev ks))"
  proof
    assume "rev ks ! nat cap \<in> set (take (nat cap) (rev ks))"
    then obtain j where j: "j < nat cap" "take (nat cap) (rev ks) ! j = rev ks ! nat cap"
      using len by (auto simp: in_set_conv_nth)
    then have "rev ks ! j = rev ks ! nat cap" by simp
    then have "j = nat cap" using dr len j(1) by (simp add: nth_eq_iff_index_eq)
    then show False using j(1) by simp
  qed
  moreover have "\<forall>j < nat cap. rev ks ! j \<in> set (take (nat cap) (rev ks))"
  proof (intro allI impI)
    fix j assume j: "j < nat cap"
    then have "take (nat cap) (rev ks) ! j = rev ks ! j" by simp
    moreover have "j < length (take (nat cap) (rev ks))" using j len by simp
    ultimately show "rev ks ! j \<in> set (take (nat cap) (rev ks))" by (metis nth_mem)
  qed
  ultimately have old: "rev ks ! nat cap \<notin> entries c'"
    "\<forall>j < nat cap. rev ks ! j \<in> entries c'"
    using e by simp_all
  have "nth_most_recent ks (nat cap + 1) \<notin> entries c'"
    using old(1) by (simp add: nth_most_recent_def)
  moreover have "\<forall>n. 1 \<le> n \<and> n \<le> nat cap \<longrightarrow> nth_most_recent ks n \<in> entries c'"
  proof (intro allI impI)
    fix n assume n: "1 \<le> n \<and> n \<le> nat cap"
    then have "n - 1 < nat cap" by linarith
    then show "nth_most_recent ks n \<in> entries c'"
      using old(2) by (simp add: nth_most_recent_def)
  qed
  ultimately show ?thesis using r ao' e by simp
qed

text \<open>An instance of C7: capacity two and the keys a, b, c.\<close>

theorem lru_eviction_witness:
  "\<exists>c'. insert_all (NewCache toy_impl 2) [''a'', ''b'', ''c''] = Inr c'
      \<and> accessOrder c' = [''c'', ''b''] \<and> ''a'' \<notin> entries c' \<and> ''b'' \<in> entries c' \<and> ''c'' \<in> entries c'"
proof -
  have r: "run_cache_ops toy_hash (NewCache toy_impl 2) [] = Inr (NewCache toy_impl 2)" by simp
  have d: "distinct [''a'', ''b'', ''c'']" by simp
  have l: "(2::int) + 1 \<le> int (length [''a'', ''b'', ''c''])" by simp
  have n2: "nat 2 = Suc (Suc 0)" by simp
  show ?thesis
    using lru_eviction[OF r _ d l] unfolding n2
    by (auto simp add: nth_most_recent_def le_Suc_eq)
qed

text \<open>
  C7 as stated fails: with capacity two and the keys a, b, c inserted in this order,
  the capacity-th most recent key is b, the second most recent, and it is in the cache.
\<close>

theorem capacity_th_most_recent_present:
  "distinct [''a'', ''b'', ''c''] \<and> (2::int) + 1 \<le> int (length [''a'', ''b'', ''c''])
   \<and> insert_all (NewCache toy_impl 2) [''a'', ''b'', ''c'']
        = Inr \<lparr>impl = toy_impl, capacity = 2, entries = {''c'', ''b''}, accessOrder = [''c'', ''b'']\<rparr>
   \<and> nth_most_recent [''a'', ''b'', ''c''] 2 = ''b''
   \<and> ''b'' \<in> {''c'', ''b''}"
  by (auto simp add: NewCache_def cache_insert_def evict_def Let_def nth_most_recent_def)

subsection \<open>The key of a batch\<close>

text \<open>
  The hasher does receive the messages in ascending id order, and the digest that
  \<open>Sum\<close> returns is the one the specification describes; but the key is built from
  the array \<open>hash\<close>, which \<open>Sum\<close> does not write.
\<close>

lemma batch_key_eq: "batch_key H sig batch = zero_Hash @ ToBytes sig"
  by (simp add: batch_key_def Let_def)

lemma batch_written_concat:
  "batch_written batch =
     concat (map (\<lambda>id. Mapping.lookup_default [] batch id) (Mapping.ordered_keys batch))"
proof -
  have "\<And>acc. foldl (\<lambda>hasher id. hasher @ Mapping.lookup_default [] batch id) acc ks
        = acc @ concat (map (\<lambda>id. Mapping.lookup_default [] batch id) ks)" for ks
    by (induction ks) simp_all
  then show ?thesis by (simp add: batch_written_def hasher_Write_def)
qed

lemma dropped_digest_is_spec_key:
  "hasher_Sum H (batch_written batch) [] @ ToBytes sig = spec_batch_key H sig batch"
  by (simp add: hasher_Sum_def spec_batch_key_def batch_written_concat)

lemma BatchVerify_cross_batch_hit:
  assumes "cache_BatchVerify H c sig batch1 = Inr (True, calls, c1)"
  shows "\<exists>c2. cache_BatchVerify H c1 sig batch2 = Inr (True, [], c2)"
proof -
  obtain hit c0 where ch: "check c (batch_key H sig batch1) = (hit, c0)" by fastforce
  have "batch_key H sig batch1 \<in> entries c1"
  proof (cases hit)
    case True
    then show ?thesis using assms ch check_entries[OF ch] by (auto simp: cache_BatchVerify_def)
  next
    case False
    then have "cache_insert c0 (batch_key H sig batch1) = Inr c1"
      using assms ch by (auto simp: cache_BatchVerify_def split: if_splits sum.splits)
    then show ?thesis by (rule insert_member)
  qed
  then have "batch_key H sig batch2 \<in> entries c1" by (simp add: batch_key_eq)
  then show ?thesis by (simp add: cache_BatchVerify_def check_def)
qed

text \<open>
  C2 fails on the code. The key \<open>BatchVerify\<close> computes is 32 zero bytes followed by
  the signature bytes, whatever the batch. Here the primitive accepts the signature
  \<open>sigA\<close> for the batch \<open>{1: a}\<close> and rejects it for the batch \<open>{1: b}\<close>; after the
  first batch is verified through the cache, the second is a cache hit: the cache
  returns true and does not call the primitive.
\<close>

theorem BatchVerify_hit_for_other_batch:
  "\<exists>c1 c2. cache_BatchVerify H (NewCache toy_impl 100) sigA batchA
               = Inr (True, [CallBatchVerify sigA batchA], c1)
     \<and> cache_BatchVerify H c1 sigA batchB = Inr (True, [], c2)
     \<and> \<not> BatchVerify toy_impl sigA batchB
     \<and> batch_key H sigA batchA = zero_Hash @ ToBytes sigA
     \<and> batch_key H sigA batchB = zero_Hash @ ToBytes sigA"
proof -
  define c1 where "c1 = \<lparr>impl = toy_impl, capacity = 100,
     entries = {zero_Hash @ ToBytes sigA}, accessOrder = [zero_Hash @ ToBytes sigA]\<rparr>"
  have a: "cache_BatchVerify H (NewCache toy_impl 100) sigA batchA
               = Inr (True, [CallBatchVerify sigA batchA], c1)"
    using batchA_ok
    by (simp add: cache_BatchVerify_def batch_key_eq check_def NewCache_def cache_insert_def
        evict_def c1_def Let_def)
  have b: "cache_BatchVerify H c1 sigA batchB
             = Inr (True, [], c1\<lparr>accessOrder := MoveToFront (zero_Hash @ ToBytes sigA) (accessOrder c1)\<rparr>)"
    by (simp add: cache_BatchVerify_def batch_key_eq check_def c1_def Let_def)
  show ?thesis
    by (intro exI conjI) (rule a, rule b, rule batchB_rejected, rule batch_key_eq, rule batch_key_eq)
qed

subsection \<open>The cache agrees with the primitive on single messages\<close>

lemma sound_insert:
  assumes "cache_sound H c" "cache_insert c k = Inr c'"
    "\<And>s m. H m \<noteq> zero_Hash \<Longrightarrow> verify_key H s m = k \<Longrightarrow> Verify (impl c) s m"
  shows "cache_sound H c'"
  unfolding cache_sound_def
proof (intro allI impI)
  fix s m assume a: "H m \<noteq> zero_Hash \<and> verify_key H s m \<in> entries c'"
  then have "verify_key H s m = k \<or> verify_key H s m \<in> entries c"
    using insert_entries_subset[OF assms(2)] by auto
  then have "Verify (impl c) s m" using a assms(1,3) unfolding cache_sound_def by blast
  then show "Verify (impl c') s m" using insert_entries_subset[OF assms(2)] by simp
qed

lemma sound_check:
  assumes "cache_sound H c" "check c k = (b, c')"
  shows "cache_sound H c'"
  using assms check_entries[OF assms(2)] unfolding cache_sound_def by simp

lemma verify_key_inj:
  assumes "\<And>m. length (H m) = 32" "verify_key H s m = verify_key H s' m'"
  shows "H m = H m' \<and> ToBytes s = ToBytes s'"
  using assms(2) assms(1)[of m] assms(1)[of m'] unfolding verify_key_def by simp

text \<open>
  The key of a batch begins with 32 zero bytes, so it is the key of a signature and a
  message only when the digest of the message is the all-zero one.
\<close>

lemma verify_key_not_batch:
  assumes "\<And>m. length (H m) = 32" "H m \<noteq> zero_Hash"
  shows "verify_key H s m \<noteq> batch_key H s' b"
proof
  assume "verify_key H s m = batch_key H s' b"
  then have "H m @ ToBytes s = zero_Hash @ ToBytes s'"
    by (simp add: verify_key_def batch_key_eq)
  moreover have "length (H m) = length zero_Hash" using assms(1) by (simp add: zero_Hash_def)
  ultimately have "H m = zero_Hash" by simp
  then show False using assms(2) by simp
qed

lemma sound_apply_op:
  assumes len: "\<And>m. length (H m) = 32"
      and sign_ok: "\<And>m sig. Sign (impl c) m = Inr sig \<Longrightarrow> Verify (impl c) sig m"
      and key_fn: "\<And>s m s' m'. H m = H m' \<Longrightarrow> ToBytes s = ToBytes s' \<Longrightarrow>
                     Verify (impl c) s m = Verify (impl c) s' m'"
      and snd: "cache_sound H c"
      and step: "apply_cache_op H c x = Inr c'"
  shows "cache_sound H c' \<and> impl c' = impl c"
proof (cases x)
  case (OpSign m)
  show ?thesis
  proof (cases "Sign (impl c) m")
    case (Inl err)
    then show ?thesis using step OpSign snd by (simp add: cache_Sign_def)
  next
    case (Inr sig)
    then have i: "cache_insert c (verify_key H sig m) = Inr c'"
      using step OpSign by (auto simp: cache_Sign_def split: sum.splits)
    have k: "\<And>s' m'. H m' \<noteq> zero_Hash \<Longrightarrow> verify_key H s' m' = verify_key H sig m
               \<Longrightarrow> Verify (impl c) s' m'"
    proof -
      fix s' m' assume "verify_key H s' m' = verify_key H sig m"
      then have "H m' = H m \<and> ToBytes s' = ToBytes sig" by (rule verify_key_inj[OF len])
      then have "Verify (impl c) s' m' = Verify (impl c) sig m" using key_fn by blast
      then show "Verify (impl c) s' m'" using sign_ok[OF Inr] by simp
    qed
    have "cache_sound H c'" by (rule sound_insert[OF snd i k])
    then show ?thesis using insert_entries_subset[OF i] by simp
  qed
next
  case (OpVerify s m)
  obtain hit c1 where ch: "check c (verify_key H s m) = (hit, c1)" by fastforce
  have c1: "cache_sound H c1" "impl c1 = impl c"
    using sound_check[OF snd ch] check_entries[OF ch] by simp_all
  show ?thesis
  proof (cases "hit \<or> \<not> Verify (impl c1) s m")
    case True
    then have "c' = c1" using step OpVerify ch by (auto simp: cache_Verify_def split: if_splits)
    then show ?thesis using c1 by simp
  next
    case False
    then have i: "cache_insert c1 (verify_key H s m) = Inr c'"
      using step OpVerify ch by (auto simp: cache_Verify_def split: sum.splits)
    have k: "\<And>s' m'. H m' \<noteq> zero_Hash \<Longrightarrow> verify_key H s' m' = verify_key H s m
               \<Longrightarrow> Verify (impl c1) s' m'"
    proof -
      fix s' m' assume "verify_key H s' m' = verify_key H s m"
      then have "H m' = H m \<and> ToBytes s' = ToBytes s" by (rule verify_key_inj[OF len])
      then have "Verify (impl c) s' m' = Verify (impl c) s m" using key_fn by blast
      then show "Verify (impl c1) s' m'" using False c1(2) by simp
    qed
    have "cache_sound H c'" by (rule sound_insert[OF c1(1) i k])
    then show ?thesis using insert_entries_subset[OF i] c1(2) by simp
  qed
next
  case (OpBatchVerify s b)
  obtain hit c1 where ch: "check c (batch_key H s b) = (hit, c1)" by fastforce
  have c1: "cache_sound H c1" "impl c1 = impl c"
    using sound_check[OF snd ch] check_entries[OF ch] by simp_all
  show ?thesis
  proof (cases "hit \<or> \<not> BatchVerify (impl c1) s b")
    case True
    then have "c' = c1" using step OpBatchVerify ch
      by (auto simp: cache_BatchVerify_def split: if_splits)
    then show ?thesis using c1 by simp
  next
    case False
    then have i: "cache_insert c1 (batch_key H s b) = Inr c'"
      using step OpBatchVerify ch by (auto simp: cache_BatchVerify_def split: sum.splits)
    have k: "\<And>s' m'. H m' \<noteq> zero_Hash \<Longrightarrow> verify_key H s' m' = batch_key H s b
               \<Longrightarrow> Verify (impl c1) s' m'"
    proof -
      fix s' m' assume nz: "H m' \<noteq> zero_Hash" and e: "verify_key H s' m' = batch_key H s b"
      have "verify_key H s' m' \<noteq> batch_key H s b" using verify_key_not_batch[of H m' s' s b] len nz by blast
      with e show "Verify (impl c1) s' m'" by simp
    qed
    have "cache_sound H c'" by (rule sound_insert[OF c1(1) i k])
    then show ?thesis using insert_entries_subset[OF i] c1(2) by simp
  qed
qed

lemma sound_run_ops:
  assumes len: "\<And>m. length (H m) = 32"
      and sign_ok: "\<And>m sig. Sign (impl c) m = Inr sig \<Longrightarrow> Verify (impl c) sig m"
      and key_fn: "\<And>s m s' m'. H m = H m' \<Longrightarrow> ToBytes s = ToBytes s' \<Longrightarrow>
                     Verify (impl c) s m = Verify (impl c) s' m'"
      and snd: "cache_sound H c"
      and run: "run_cache_ops H c ops = Inr c'"
  shows "cache_sound H c' \<and> impl c' = impl c"
  using sign_ok key_fn snd run
proof (induction ops arbitrary: c)
  case Nil
  from Nil.prems(3,4) show ?case by simp
next
  case (Cons x xs)
  obtain c1 where s: "apply_cache_op H c x = Inr c1" and r: "run_cache_ops H c1 xs = Inr c'"
    using Cons.prems(4) by (auto split: sum.splits)
  have c1: "cache_sound H c1 \<and> impl c1 = impl c"
    by (rule sound_apply_op[OF len Cons.prems(1) Cons.prems(2) Cons.prems(3) s])
  have e1: "impl c1 = impl c" using c1 by simp
  have "cache_sound H c' \<and> impl c' = impl c1"
  proof (rule Cons.IH[OF _ _ _ r])
    show "\<And>m sig. Sign (impl c1) m = Inr sig \<Longrightarrow> Verify (impl c1) sig m"
      unfolding e1 by (rule Cons.prems(1))
    show "\<And>s m s' m'. H m = H m' \<Longrightarrow> ToBytes s = ToBytes s' \<Longrightarrow>
                     Verify (impl c1) s m = Verify (impl c1) s' m'"
      unfolding e1 by (rule Cons.prems(2))
    show "cache_sound H c1" using c1 by simp
  qed
  then show ?case using e1 by simp
qed

text \<open>
  What \<open>Verify\<close> returns in a sound state whose entries are within a capacity of at
  least one: the verdict of the primitive, and no panic.
\<close>

lemma Verify_in_sound_state:
  assumes wf: "cache_wf c" and cap: "1 \<le> capacity c"
      and snd: "cache_sound H c" and nz: "H m \<noteq> zero_Hash"
  shows "\<exists>calls c'. cache_Verify H c s m = Inr (Verify (impl c) s m, calls, c')"
proof -
  obtain b calls c' where v: "cache_Verify H c s m = Inr (b, calls, c')"
    using Verify_total[OF wf cap] by blast
  obtain hit c1 where ch: "check c (verify_key H s m) = (hit, c1)" by fastforce
  have c1: "impl c1 = impl c" "hit = (verify_key H s m \<in> entries c)"
    using check_entries[OF ch] by simp_all
  have "b = Verify (impl c) s m"
  proof (cases hit)
    case True
    then have "b" using v ch by (simp add: cache_Verify_def)
    moreover have "Verify (impl c) s m"
      using True c1(2) snd nz unfolding cache_sound_def by blast
    ultimately show ?thesis by simp
  next
    case False
    then show ?thesis using v ch c1(1)
      by (auto simp: cache_Verify_def split: if_splits sum.splits)
  qed
  then show ?thesis using v by simp
qed

text \<open>
  The condition on the digest of the message cannot be dropped. Over a digest function
  that gives the all-zero digest to the empty message, and a primitive that meets the
  other conditions, the key of an accepted batch is the key of the same signature and
  the empty message: \<open>Verify\<close> is a hit and returns true where the primitive rejects.
\<close>

lemma zero_at_empty_length: "length (zero_at_empty m) = 32"
  by (simp add: zero_at_empty_def zero_Hash_def toy_hash_length)

lemma zero_sign_ok: "Sign zero_impl m = Inr sig \<Longrightarrow> Verify zero_impl sig m"
  by (auto simp: zero_impl_def toy_impl_def zero_at_empty_def split: if_splits)

lemma zero_key_fn:
  "zero_at_empty m = zero_at_empty m' \<Longrightarrow> ToBytes s = ToBytes s'
     \<Longrightarrow> Verify zero_impl s m = Verify zero_impl s' m'"
  by (simp add: zero_impl_def)

lemma zero_digest_false_hit:
  "Verify_after zero_at_empty zero_impl 1 [OpBatchVerify sigA batchA] sigA [] = Inr True
   \<and> \<not> Verify zero_impl sigA []"
proof -
  have b: "BatchVerify zero_impl sigA batchA" using batchA_ok by (simp add: zero_impl_def)
  have k: "verify_key zero_at_empty sigA [] = zero_Hash @ ToBytes sigA"
    by (simp add: verify_key_def zero_at_empty_def)
  have "Verify_after zero_at_empty zero_impl 1 [OpBatchVerify sigA batchA] sigA [] = Inr True"
    using b by (simp add: Verify_after_def NewCache_def cache_BatchVerify_def batch_key_eq
        cache_Verify_def check_def cache_insert_def evict_def Let_def k)
  moreover have "\<not> Verify zero_impl sigA []"
    using toy_hash_nonzero[of "''a''"] by (simp add: zero_impl_def sigA_def zero_at_empty_def)
  ultimately show ?thesis by simp
qed

text \<open>
  C1, as amended. Let the capacity be at least one, let the primitive accept the
  signatures it issues, and let its verdict on a signature and a message depend only on
  the signature bytes and the digest of the message (digests are 32 bytes long). Then
  after every sequence of \<open>Sign\<close>, \<open>Verify\<close> and \<open>BatchVerify\<close> operations on a new
  cache, and for every signature \<open>s\<close> and every message \<open>m\<close> whose digest is not the
  all-zero one, \<open>cache.Verify(s, m)\<close> returns, without a panic, what the primitive's
  \<open>Verify(s, m)\<close> returns. The condition on the digest of \<open>m\<close> keeps the keys of
  \<open>BatchVerify\<close> apart, which begin with 32 zero bytes whatever the batch is.
\<close>

theorem cache_Verify_agrees:
  assumes len: "\<And>m. length (H m) = 32"
      and sign_ok: "\<And>m sig. Sign i m = Inr sig \<Longrightarrow> Verify i sig m"
      and key_fn: "\<And>s m s' m'. H m = H m' \<Longrightarrow> ToBytes s = ToBytes s' \<Longrightarrow>
                     Verify i s m = Verify i s' m'"
      and cap: "1 \<le> cap"
      and nz: "H m \<noteq> zero_Hash"
  shows "Verify_after H i cap ops s m = Inr (Verify i s m)"
proof -
  have i0: "impl (NewCache i cap) = i" and c0: "capacity (NewCache i cap) = cap"
    by (simp_all add: NewCache_def)
  have s0: "cache_sound H (NewCache i cap)" by (simp add: cache_sound_def NewCache_def)
  have w0: "cache_wf (NewCache i cap)" using cap by (intro NewCache_wf) simp
  obtain c where reach: "run_cache_ops H (NewCache i cap) ops = Inr c"
    using run_ops_total[OF w0, of H ops] cap c0 by auto
  have wf: "cache_wf c" and cc: "capacity c = cap"
    using run_ops_wf[OF w0 reach] c0 by simp_all
  have sc: "cache_sound H c \<and> impl c = impl (NewCache i cap)"
  proof (rule sound_run_ops[OF len _ _ s0 reach])
    show "\<And>m sig. Sign (impl (NewCache i cap)) m = Inr sig \<Longrightarrow> Verify (impl (NewCache i cap)) sig m"
      unfolding i0 by (rule sign_ok)
    show "\<And>s m s' m'. H m = H m' \<Longrightarrow> ToBytes s = ToBytes s' \<Longrightarrow>
                     Verify (impl (NewCache i cap)) s m = Verify (impl (NewCache i cap)) s' m'"
      unfolding i0 by (rule key_fn)
  qed
  have ic: "impl c = i" using sc i0 by simp
  have c1: "1 \<le> capacity c" using cap cc by simp
  have snd: "cache_sound H c" using sc by simp
  obtain calls c' where v: "cache_Verify H c s m = Inr (Verify (impl c) s m, calls, c')"
    using Verify_in_sound_state[OF wf c1 snd nz] by blast
  show ?thesis by (simp add: Verify_after_def reach v ic)
qed

text \<open>
  Instances of C1 on a cache of capacity two, after the message \<open>0xDEADBEEF\<close> was signed
  and a batch was verified: the signature of the message is accepted, as the primitive
  accepts it, and the signature of another message is rejected.
\<close>

theorem cache_Verify_agrees_witness:
  "Verify_after toy_hash toy_impl 2 [OpSign deadbeef, OpBatchVerify sigA batchA]
       (sig_by 1 deadbeef) deadbeef = Inr True
   \<and> Verify_after toy_hash toy_impl 2 [OpSign deadbeef, OpBatchVerify sigA batchA]
       sigA deadbeef = Inr False"
proof -
  have two: "(1::int) \<le> 2" by simp
  have a: "Verify toy_impl (sig_by 1 deadbeef) deadbeef"
    by (simp add: toy_impl_def sig_by_def)
  have b: "\<not> Verify toy_impl sigA deadbeef"
    by (simp add: toy_impl_def sigA_def toy_hash_def deadbeef_def)
  have "Verify_after toy_hash toy_impl 2 [OpSign deadbeef, OpBatchVerify sigA batchA]
          (sig_by 1 deadbeef) deadbeef = Inr (Verify toy_impl (sig_by 1 deadbeef) deadbeef)"
    by (rule cache_Verify_agrees[OF toy_hash_length toy_sign_ok toy_key_fn two toy_hash_nonzero])
  moreover have "Verify_after toy_hash toy_impl 2 [OpSign deadbeef, OpBatchVerify sigA batchA]
          sigA deadbeef = Inr (Verify toy_impl sigA deadbeef)"
    by (rule cache_Verify_agrees[OF toy_hash_length toy_sign_ok toy_key_fn two toy_hash_nonzero])
  ultimately show ?thesis using a b by simp
qed

text \<open>
  C1 as stated fails, in three ways. With capacity zero, \<open>Verify\<close> on a new cache
  panics on a signature that the primitive accepts: the insertion evicts from the empty
  list. \<open>Sign\<close> inserts the key of a signature that was not verified: over a primitive
  that rejects what it signed, \<open>Verify\<close> after \<open>Sign\<close> is a hit and returns true. And
  the key holds the signature bytes only: after the signature of participant 1 was
  verified, the same bytes presented for participant 2 are a hit, while the primitive,
  which looks at the participant, rejects them.
\<close>

theorem cache_Verify_disagrees:
  "Verify toy_impl (sig_by 1 deadbeef) deadbeef
   \<and> Verify_after toy_hash toy_impl 0 [] (sig_by 1 deadbeef) deadbeef = Inl NilPointerDereference
   \<and> \<not> Verify rejecting_impl (sig_by 1 deadbeef) deadbeef
   \<and> Verify_after toy_hash rejecting_impl 1 [OpSign deadbeef] (sig_by 1 deadbeef) deadbeef = Inr True
   \<and> \<not> Verify signer_impl (sig_by 2 deadbeef) deadbeef
   \<and> Verify_after toy_hash signer_impl 1 [OpVerify (sig_by 1 deadbeef) deadbeef]
        (sig_by 2 deadbeef) deadbeef = Inr True"
proof -
  have a: "Verify toy_impl (sig_by 1 deadbeef) deadbeef"
    by (simp add: toy_impl_def sig_by_def)
  have a': "Verify_after toy_hash toy_impl 0 [] (sig_by 1 deadbeef) deadbeef = Inl NilPointerDereference"
    using a by (simp add: Verify_after_def NewCache_def cache_Verify_def check_def
        cache_insert_def evict_def Let_def)
  have b: "\<not> Verify rejecting_impl (sig_by 1 deadbeef) deadbeef"
    by (simp add: rejecting_impl_def)
  have s: "Sign rejecting_impl deadbeef = Inr (sig_by 1 deadbeef)"
    by (simp add: rejecting_impl_def toy_impl_def deadbeef_def sig_by_def)
  have b': "Verify_after toy_hash rejecting_impl 1 [OpSign deadbeef] (sig_by 1 deadbeef) deadbeef
              = Inr True"
    by (simp add: Verify_after_def cache_Sign_def s NewCache_def cache_Verify_def check_def
        cache_insert_def evict_def Let_def)
  have c: "\<not> Verify signer_impl (sig_by 2 deadbeef) deadbeef"
    by (simp add: signer_impl_def sig_by_def)
  have c1: "Verify signer_impl (sig_by 1 deadbeef) deadbeef"
    by (simp add: signer_impl_def sig_by_def)
  have k: "verify_key toy_hash (sig_by 2 deadbeef) deadbeef
             = verify_key toy_hash (sig_by 1 deadbeef) deadbeef"
    by (simp add: verify_key_def sig_by_def)
  have c': "Verify_after toy_hash signer_impl 1 [OpVerify (sig_by 1 deadbeef) deadbeef]
              (sig_by 2 deadbeef) deadbeef = Inr True"
    using c1 by (simp add: Verify_after_def NewCache_def cache_Verify_def check_def
        cache_insert_def evict_def Let_def k)
  show ?thesis by (intro conjI) (rule a, rule a', rule b, rule b', rule c, rule c')
qed


section \<open>Verification of the twins network\<close>

subsection \<open>The commit check\<close>

lemma hashesAt_Nil: "hashesAt [] i = {}"
  by (simp add: hashesAt_def)

lemma hashesAt_Cons:
  "hashesAt ((rid, replica) # rs) i =
     (if length replica = 1 \<and> i < length (executedBlocks (replica ! 0))
      then insert (Hash (executedBlocks (replica ! 0) ! i)) (hashesAt rs i)
      else hashesAt rs i)"
  unfolding hashesAt_def by auto

lemma finite_hashesAt: "finite (hashesAt rs i)"
proof (induction rs)
  case Nil
  show ?case by (simp add: hashesAt_Nil)
next
  case (Cons r rs)
  obtain rid replica where r: "r = (rid, replica)" by (cases r)
  show ?case unfolding r hashesAt_Cons using Cons.IH by simp
qed

lemma hashesAt_empty_mono:
  assumes "hashesAt rs i = {}" "i \<le> j"
  shows "hashesAt rs j = {}"
  using assms unfolding hashesAt_def by fastforce

lemma countCommits_result:
  "countCommits rs i (nc, cc) = (nc', cc') \<Longrightarrow>
     nc' = (nc \<and> hashesAt rs i = {}) \<and> Mapping.keys cc' = Mapping.keys cc \<union> hashesAt rs i"
proof (induction rs arbitrary: nc cc)
  case Nil
  then show ?case by (simp add: hashesAt_Nil)
next
  case (Cons r rs)
  obtain rid replica where r: "r = (rid, replica)" by (cases r)
  show ?case
  proof (cases "length replica = 1 \<and> i < length (executedBlocks (replica ! 0))")
    case True
    let ?h = "Hash (executedBlocks (replica ! 0) ! i)"
    have "countCommits rs i (False, Mapping.update ?h (Mapping.lookup_default 0 cc ?h + 1) cc) = (nc', cc')"
      using Cons.prems True unfolding r by (simp add: Let_def)
    from Cons.IH[OF this] show ?thesis
      unfolding r hashesAt_Cons using True by auto
  next
    case False
    then have "countCommits rs i (nc, cc) = (nc', cc')"
      using Cons.prems unfolding r by (auto simp: Let_def split: if_splits)
    from Cons.IH[OF this] show ?thesis
      unfolding r hashesAt_Cons using False by auto
  qed
qed

lemma countCommits_fst:
  "fst (countCommits rs i (True, Mapping.empty)) = (hashesAt rs i = {})"
  using countCommits_result[of rs i True Mapping.empty] by (metis prod.collapse)

lemma countCommits_size:
  "Mapping.size (snd (countCommits rs i (True, Mapping.empty))) = card (hashesAt rs i)"
proof -
  obtain nc' cc' where e: "countCommits rs i (True, Mapping.empty) = (nc', cc')" by fastforce
  have "Mapping.keys cc' = hashesAt rs i"
    using countCommits_result[OF e] by simp
  then show ?thesis unfolding e by (simp add: Mapping.size_def)
qed

lemma loop_unfold:
  "checkCommits_loop net i =
     (if hashesAt (replicas net) i = {} then (True, i)
      else if card (hashesAt (replicas net) i) \<noteq> 1 then (False, i)
      else checkCommits_loop net (i + 1))"
  by (subst checkCommits_loop.simps) (simp only: countCommits_fst countCommits_size)

lemma card_le_one_iff:
  assumes "finite S"
  shows "card S \<le> 1 \<longleftrightarrow> S = {} \<or> (\<exists>h. S = {h})"
proof
  assume "card S \<le> 1"
  then have "card S = 0 \<or> card S = 1" by linarith
  then show "S = {} \<or> (\<exists>h. S = {h})"
    using assms by (auto simp: card_1_singleton_iff)
next
  assume "S = {} \<or> (\<exists>h. S = {h})"
  then show "card S \<le> 1" by auto
qed

lemma card_ge_two_iff:
  assumes "finite S"
  shows "2 \<le> card S \<longleftrightarrow> (\<exists>h1 h2. h1 \<in> S \<and> h2 \<in> S \<and> h1 \<noteq> h2)"
proof
  assume "2 \<le> card S"
  then have ne: "S \<noteq> {}" by auto
  then obtain h1 where h1: "h1 \<in> S" by blast
  have "S \<noteq> {h1}" using \<open>2 \<le> card S\<close> by auto
  then obtain h2 where "h2 \<in> S" "h2 \<noteq> h1" using h1 by blast
  then show "\<exists>h1 h2. h1 \<in> S \<and> h2 \<in> S \<and> h1 \<noteq> h2" using h1 by blast
next
  assume "\<exists>h1 h2. h1 \<in> S \<and> h2 \<in> S \<and> h1 \<noteq> h2"
  then obtain h1 h2 where h: "h1 \<in> S" "h2 \<in> S" "h1 \<noteq> h2" by blast
  then have "{h1, h2} \<subseteq> S" by simp
  then have "card {h1, h2} \<le> card S" using assms by (rule card_mono[rotated])
  then show "2 \<le> card S" using h(3) by simp
qed

lemma card_one_if:
  assumes "finite S" "S \<noteq> {}" "card S \<le> 1"
  shows "card S = 1"
proof -
  have "card S \<noteq> 0" using assms(1,2) by simp
  then show ?thesis using assms(3) by linarith
qed

lemma loop_safe_iff:
  "fst (checkCommits_loop net i) \<longleftrightarrow> (\<forall>j\<ge>i. card (hashesAt (replicas net) j) \<le> 1)"
proof (induction net i rule: checkCommits_loop.induct)
  case (1 net i)
  show ?case
  proof (cases "hashesAt (replicas net) i = {}")
    case True
    then have "\<forall>j\<ge>i. hashesAt (replicas net) j = {}" using hashesAt_empty_mono by blast
    then show ?thesis using True by (subst loop_unfold) simp
  next
    case ne: False
    show ?thesis
    proof (cases "card (hashesAt (replicas net) i) = 1")
      case True
      have nc: "\<not> fst (countCommits (replicas net) i (True, Mapping.empty))"
        using ne by (simp add: countCommits_fst)
      have sz: "\<not> Mapping.size (snd (countCommits (replicas net) i (True, Mapping.empty))) \<noteq> 1"
        using True by (simp add: countCommits_size)
      have IH: "fst (checkCommits_loop net (i + 1)) \<longleftrightarrow>
                  (\<forall>j\<ge>i + 1. card (hashesAt (replicas net) j) \<le> 1)"
        by (rule "1.IH"[OF nc sz])
      have "(\<forall>j\<ge>i. card (hashesAt (replicas net) j) \<le> 1) \<longleftrightarrow>
            (\<forall>j\<ge>i + 1. card (hashesAt (replicas net) j) \<le> 1)"
      proof
        assume "\<forall>j\<ge>i. card (hashesAt (replicas net) j) \<le> 1"
        then show "\<forall>j\<ge>i + 1. card (hashesAt (replicas net) j) \<le> 1" by simp
      next
        assume a: "\<forall>j\<ge>i + 1. card (hashesAt (replicas net) j) \<le> 1"
        show "\<forall>j\<ge>i. card (hashesAt (replicas net) j) \<le> 1"
        proof (intro allI impI)
          fix j assume "i \<le> j"
          then have "j = i \<or> i + 1 \<le> j" by linarith
          then show "card (hashesAt (replicas net) j) \<le> 1" using a True by auto
        qed
      qed
      then show ?thesis using IH ne True by (subst loop_unfold) simp
    next
      case False
      then have "\<not> card (hashesAt (replicas net) i) \<le> 1"
        using card_one_if[OF finite_hashesAt ne] by blast
      then have "\<not> (\<forall>j\<ge>i. card (hashesAt (replicas net) j) \<le> 1)" by blast
      then show ?thesis using ne False by (subst loop_unfold) simp
    qed
  qed
qed

lemma loop_first_violation:
  assumes "2 \<le> card (hashesAt (replicas net) k)"
      and "\<forall>j<k. card (hashesAt (replicas net) j) \<le> 1"
      and "i \<le> k"
  shows "checkCommits_loop net i = (False, k)"
  using assms(3)
proof (induction "k - i" arbitrary: i)
  case 0
  then have "i = k" by simp
  moreover have "hashesAt (replicas net) k \<noteq> {}" using assms(1) by auto
  ultimately show ?case using assms(1) by (subst loop_unfold) simp
next
  case (Suc n)
  then have lt: "i < k" by simp
  have "hashesAt (replicas net) k \<noteq> {}" using assms(1) by auto
  then have ne: "hashesAt (replicas net) i \<noteq> {}"
    using hashesAt_empty_mono[of "replicas net" i k] lt by auto
  have "card (hashesAt (replicas net) i) \<le> 1" using assms(2) lt by simp
  then have c1: "card (hashesAt (replicas net) i) = 1"
    by (rule card_one_if[OF finite_hashesAt ne])
  have "checkCommits_loop net (i + 1) = (False, k)"
    using Suc.hyps(1)[of "i + 1"] Suc.hyps(2) lt by simp
  then show ?case using ne c1 by (subst loop_unfold) simp
qed

lemma loop_safe_count:
  assumes "fst (checkCommits_loop net i)"
  shows "hashesAt (replicas net) (snd (checkCommits_loop net i)) = {}
         \<and> i \<le> snd (checkCommits_loop net i)
         \<and> (\<forall>j. i \<le> j \<and> j < snd (checkCommits_loop net i) \<longrightarrow> card (hashesAt (replicas net) j) = 1)"
  using assms
proof (induction net i rule: checkCommits_loop.induct)
  case (1 net i)
  show ?case
  proof (cases "hashesAt (replicas net) i = {}")
    case True
    then have "checkCommits_loop net i = (True, i)" by (subst loop_unfold) simp
    then show ?thesis using True by simp
  next
    case ne: False
    show ?thesis
    proof (cases "card (hashesAt (replicas net) i) = 1")
      case True
      have nc: "\<not> fst (countCommits (replicas net) i (True, Mapping.empty))"
        using ne by (simp add: countCommits_fst)
      have sz: "\<not> Mapping.size (snd (countCommits (replicas net) i (True, Mapping.empty))) \<noteq> 1"
        using True by (simp add: countCommits_size)
      have e: "checkCommits_loop net i = checkCommits_loop net (i + 1)"
        using ne True by (subst loop_unfold) simp
      have f: "fst (checkCommits_loop net (i + 1))" using "1.prems" e by simp
      note IH = "1.IH"[OF nc sz f]
      show ?thesis unfolding e
      proof (intro conjI allI impI)
        show "hashesAt (replicas net) (snd (checkCommits_loop net (i + 1))) = {}" using IH by simp
        show "i \<le> snd (checkCommits_loop net (i + 1))" using IH by simp
        fix j assume "i \<le> j \<and> j < snd (checkCommits_loop net (i + 1))"
        then have "j = i \<or> (i + 1 \<le> j \<and> j < snd (checkCommits_loop net (i + 1)))" by linarith
        then show "card (hashesAt (replicas net) j) = 1" using IH True by auto
      qed
    next
      case False
      then have "checkCommits_loop net i = (False, i)" using ne by (subst loop_unfold) simp
      then show ?thesis using "1.prems" by simp
    qed
  qed
qed

text \<open>
  The result does not depend on the order in which the loop visits the replicas, which
  Go leaves unspecified.
\<close>

lemma hashesAt_set: "set rs = set rs' \<Longrightarrow> hashesAt rs i = hashesAt rs' i"
  by (simp add: hashesAt_def)

lemma loop_unsafe_index:
  assumes "\<not> fst (checkCommits_loop net 0)"
  shows "\<exists>k. 2 \<le> card (hashesAt (replicas net) k)
             \<and> (\<forall>j<k. card (hashesAt (replicas net) j) \<le> 1)"
proof -
  have "\<exists>j. \<not> card (hashesAt (replicas net) j) \<le> 1"
    using assms loop_safe_iff[of net 0] by simp
  then obtain j where "\<not> card (hashesAt (replicas net) j) \<le> 1" by blast
  then have j: "2 \<le> card (hashesAt (replicas net) j)" by linarith
  define k where "k = (LEAST j. 2 \<le> card (hashesAt (replicas net) j))"
  have k2: "2 \<le> card (hashesAt (replicas net) k)"
    unfolding k_def using j by (rule LeastI)
  have "\<forall>j<k. card (hashesAt (replicas net) j) \<le> 1"
  proof (intro allI impI)
    fix j assume "j < k"
    then have "\<not> 2 \<le> card (hashesAt (replicas net) j)"
      unfolding k_def by (rule not_less_Least)
    then show "card (hashesAt (replicas net) j) \<le> 1" by simp
  qed
  then show ?thesis using k2 by blast
qed

lemma checkCommits_order_independent:
  assumes "set (replicas n1) = set (replicas n2)"
  shows "checkCommits n1 = checkCommits n2"
proof -
  have h: "\<And>i. hashesAt (replicas n1) i = hashesAt (replicas n2) i"
    using assms by (rule hashesAt_set)
  show ?thesis
  proof (cases "fst (checkCommits_loop n1 0)")
    case True
    then have t2: "fst (checkCommits_loop n2 0)"
      using loop_safe_iff[of n1 0] loop_safe_iff[of n2 0] h by simp
    let ?a = "snd (checkCommits_loop n1 0)" and ?b = "snd (checkCommits_loop n2 0)"
    note c1 = loop_safe_count[OF True] and c2 = loop_safe_count[OF t2]
    have "\<not> ?a < ?b"
    proof
      assume "?a < ?b"
      then have "card (hashesAt (replicas n2) ?a) = 1" using c2 by simp
      then show False using c1 h by simp
    qed
    moreover have "\<not> ?b < ?a"
    proof
      assume "?b < ?a"
      then have "card (hashesAt (replicas n1) ?b) = 1" using c1 by simp
      then show False using c2 h by simp
    qed
    ultimately have "?a = ?b" by linarith
    then show ?thesis unfolding checkCommits_def using True t2 by (simp add: prod_eq_iff)
  next
    case False
    then obtain k where k: "2 \<le> card (hashesAt (replicas n1) k)"
        "\<forall>j<k. card (hashesAt (replicas n1) j) \<le> 1"
      using loop_unsafe_index by blast
    have "checkCommits_loop n1 0 = (False, k)"
      by (rule loop_first_violation[OF k]) simp
    moreover have "checkCommits_loop n2 0 = (False, k)"
      using k unfolding h by (intro loop_first_violation) simp_all
    ultimately show ?thesis unfolding checkCommits_def by simp
  qed
qed

text \<open>
  C3. \<open>checkCommits\<close> returns \<open>Safe = true\<close> exactly when at every chain index the
  set of hashes at that position, over the replicas that have exactly one node and
  have executed more blocks than the index, is empty or a singleton; and when \<open>i\<close> is the
  first index at which that set has two distinct hashes, the result is \<open>(false, i)\<close>.
\<close>

theorem checkCommits_safe_iff:
  "(fst (checkCommits net) \<longleftrightarrow>
      (\<forall>i. hashesAt (replicas net) i = {} \<or> (\<exists>h. hashesAt (replicas net) i = {h})))
   \<and> (\<forall>i. (\<exists>h1 h2. h1 \<in> hashesAt (replicas net) i \<and> h2 \<in> hashesAt (replicas net) i \<and> h1 \<noteq> h2)
          \<and> (\<forall>j<i. hashesAt (replicas net) j = {} \<or> (\<exists>h. hashesAt (replicas net) j = {h}))
        \<longrightarrow> checkCommits net = (False, i))"
proof (intro conjI allI impI)
  have eq: "\<And>j. card (hashesAt (replicas net) j) \<le> 1 \<longleftrightarrow>
              hashesAt (replicas net) j = {} \<or> (\<exists>h. hashesAt (replicas net) j = {h})"
    by (rule card_le_one_iff[OF finite_hashesAt])
  have A: "fst (checkCommits net) \<longleftrightarrow> (\<forall>j. card (hashesAt (replicas net) j) \<le> 1)"
    unfolding checkCommits_def using loop_safe_iff[of net 0] by simp
  show "fst (checkCommits net) \<longleftrightarrow>
      (\<forall>i. hashesAt (replicas net) i = {} \<or> (\<exists>h. hashesAt (replicas net) i = {h}))"
    unfolding A by (simp only: eq)
next
  fix i
  assume a: "(\<exists>h1 h2. h1 \<in> hashesAt (replicas net) i \<and> h2 \<in> hashesAt (replicas net) i \<and> h1 \<noteq> h2)
          \<and> (\<forall>j<i. hashesAt (replicas net) j = {} \<or> (\<exists>h. hashesAt (replicas net) j = {h}))"
  have two: "2 \<le> card (hashesAt (replicas net) i)"
    using a by (simp only: card_ge_two_iff[OF finite_hashesAt])
  have one: "\<forall>j<i. card (hashesAt (replicas net) j) \<le> 1"
  proof (intro allI impI)
    fix j assume "j < i"
    then have "hashesAt (replicas net) j = {} \<or> (\<exists>h. hashesAt (replicas net) j = {h})"
      using a by simp
    then show "card (hashesAt (replicas net) j) \<le> 1"
      by (simp only: card_le_one_iff[OF finite_hashesAt])
  qed
  show "checkCommits net = (False, i)"
    unfolding checkCommits_def by (rule loop_first_violation[OF two one]) simp
qed

text \<open>
  An instance of C3: the replicas 2 and 4 have executed the blocks A and B, replica 3
  the block A; the twins of replica 1 disagree and are not counted.
\<close>

theorem checkCommits_safe_iff_witness:
  "checkCommits (twins_net 1 [''A'', ''B''] [''A''] [''A'', ''B'']) = (True, 2)
   \<and> (\<forall>i. hashesAt (replicas (twins_net 1 [''A'', ''B''] [''A''] [''A'', ''B''])) i = {}
          \<or> (\<exists>h. hashesAt (replicas (twins_net 1 [''A'', ''B''] [''A''] [''A'', ''B''])) i = {h}))"
proof -
  have e: "checkCommits (twins_net 1 [''A'', ''B''] [''A''] [''A'', ''B'']) = (True, 2)"
    by code_simp
  then have "fst (checkCommits (twins_net 1 [''A'', ''B''] [''A''] [''A'', ''B'']))" by simp
  then show ?thesis
    using checkCommits_safe_iff[of "twins_net 1 [''A'', ''B''] [''A''] [''A'', ''B'']"] e by blast
qed

subsection \<open>The drop decision\<close>

text \<open>
  The effective view of a node is written by \<open>advance\<close> alone: when the countdown
  runs out in a view the node has not yet left behind, the effective view becomes that
  view plus one.
\<close>

lemma advance_effectiveView:
  "advance tm nd = (tm', nd', ev) \<Longrightarrow>
     syncView nd' = syncView nd
     \<and> effectiveView nd' =
         (if countdown tm = 1 \<and> effectiveView nd \<le> syncView nd then syncView nd + 1
          else effectiveView nd)
     \<and> ev = (if countdown tm = 1 then Some (syncView nd) else None)"
  by (auto simp: advance_def Let_def split: if_splits)

lemma sint_pred:
  fixes v :: "64 word"
  assumes "v \<noteq> 0" "unat v \<le> 2 ^ 63"
  shows "sint (v - 1) = int (unat v) - 1"
proof -
  have u: "unat (v - 1) = unat v - 1" using assms(1) by (rule unat_minus_one)
  have pos: "0 < unat v" using assms(1) by (simp add: unat_gt_0)
  have "uint (v - 1) = int (unat (v - 1))" by simp
  then have ui: "uint (v - 1) = int (unat v) - 1" using u pos by (simp add: of_nat_diff)
  have "int (unat v) \<le> 2 ^ 63" using of_nat_mono[OF assms(2), where 'a = int] by simp
  then have "int (unat v) - 1 < 2 ^ 63" by linarith
  moreover have "(0::int) \<le> int (unat v) - 1" using pos by linarith
  then have "- (2 ^ 63) \<le> int (unat v) - 1"
    by (rule order_trans[rotated]) simp
  ultimately have "signed_take_bit 63 (int (unat v) - 1) = int (unat v) - 1"
    by (intro signed_take_bit_int_eq_self) simp_all
  then show ?thesis by (simp add: sint_uint ui)
qed

lemma unat_max: "unat (max a b) = max (unat a) (unat b)" for a b :: "64 word"
  by (simp add: max_def word_le_nat_alt)

lemma eff_max:
  "(if effectiveView nd > syncView nd then (-1 :: 64 word) + effectiveView nd
    else (-1 :: 64 word) + syncView nd) = max (effectiveView nd) (syncView nd) - 1"
  by (auto simp: max_def)

lemma twins_net_node2: "nodes (twins_net v h2 h3 h4) 2 = Some (mkNode 2 2 v h2)"
  by (simp add: twins_net_def)

text \<open>
  C4, as amended. For a sender that is a node of the network, let \<open>i\<close> be the larger of
  the sender's effective view and its synchronizer view, minus one, as a signed 64-bit
  number. If \<open>i\<close> is negative the message is not dropped; if \<open>i\<close> is at or beyond the
  end of the view plan the message is dropped; otherwise the message survives when some
  partition of entry \<open>i\<close> contains both the sender and the receiver, and when none does
  it is dropped exactly when its type is in the drop set. In particular a message sent
  in view 0 is never dropped, and for the views from 1 to \<open>2^63\<close> the decision is the
  one the specification describes.
\<close>

theorem shouldDrop_decision:
  assumes "nodes n sender = Some nd"
  shows "shouldDrop n sender receiver message =
           Inr (let i = sint (max (effectiveView nd) (syncView nd) - 1)
                in if i < 0 then False
                   else if int (length (views n)) \<le> i then True
                   else if (\<exists>p \<in> set (Partitions (views n ! nat i)). sender \<in> p \<and> receiver \<in> p)
                        then False
                   else message \<in> dropTypes n)
         \<and> (max (effectiveView nd) (syncView nd) = 0 \<longrightarrow>
               shouldDrop n sender receiver message = Inr False)
         \<and> (max (effectiveView nd) (syncView nd) \<noteq> 0
              \<and> unat (max (effectiveView nd) (syncView nd)) \<le> 2 ^ 63 \<longrightarrow>
               shouldDrop n sender receiver message = Inr (spec_drop n nd sender receiver message))"
proof (intro conjI impI)
  show main: "shouldDrop n sender receiver message =
           Inr (let i = sint (max (effectiveView nd) (syncView nd) - 1)
                in if i < 0 then False
                   else if int (length (views n)) \<le> i then True
                   else if (\<exists>p \<in> set (Partitions (views n ! nat i)). sender \<in> p \<and> receiver \<in> p)
                        then False
                   else message \<in> dropTypes n)"
    unfolding shouldDrop_def assms option.case eff_max Let_def list_ex_iff
    by (simp only: if_distrib[of Inr] split: if_splits)
  { assume z: "max (effectiveView nd) (syncView nd) = 0"
    show "shouldDrop n sender receiver message = Inr False"
      unfolding main z by simp
  }
  { assume a: "max (effectiveView nd) (syncView nd) \<noteq> 0
              \<and> unat (max (effectiveView nd) (syncView nd)) \<le> 2 ^ 63"
    have um: "unat (max (effectiveView nd) (syncView nd))
                = max (unat (syncView nd)) (unat (effectiveView nd))"
      by (simp only: unat_max max.commute)
    have s: "sint (max (effectiveView nd) (syncView nd) - 1)
               = int (max (unat (syncView nd)) (unat (effectiveView nd))) - 1"
      using sint_pred[of "max (effectiveView nd) (syncView nd)"] a unfolding um by blast
    have "0 < unat (max (effectiveView nd) (syncView nd))"
      using a unat_gt_0 by blast
    then have "0 < max (unat (syncView nd)) (unat (effectiveView nd))" unfolding um .
    then have nn: "\<not> int (max (unat (syncView nd)) (unat (effectiveView nd))) - 1 < 0"
      by linarith
    show "shouldDrop n sender receiver message = Inr (spec_drop n nd sender receiver message)"
      unfolding main s spec_drop_def Let_def list_ex_iff using nn
      by (simp only: simp_thms if_False)
  }
qed

text \<open>
  Instances of C4 on the concrete network: in view 1 a vote from node 2 to node 4 is
  dropped and one to node 3 is not; in view 3 the plan has no entry and every message is
  dropped.
\<close>

theorem shouldDrop_decision_witness:
  "shouldDrop (twins_net 1 [] [] []) 2 4 VoteMsg = Inr True
   \<and> shouldDrop (twins_net 1 [] [] []) 2 3 VoteMsg = Inr False
   \<and> shouldDrop (twins_net 3 [] [] []) 2 3 TimeoutMsg = Inr True"
proof -
  have s: "sint (max (effectiveView (mkNode 2 2 1 [])) (syncView (mkNode 2 2 1 [])) - 1) = 0"
    by (simp add: mkNode_def)
  have s3: "sint (max (effectiveView (mkNode 2 2 3 [])) (syncView (mkNode 2 2 3 [])) - 1) = 2"
    by (simp add: mkNode_def)
  have a: "shouldDrop (twins_net 1 [] [] []) 2 4 VoteMsg = Inr True"
    using shouldDrop_decision[OF twins_net_node2, of 1 "[]" "[]" "[]" 4 VoteMsg]
    unfolding s by (simp add: twins_net_def twins_views_def)
  have b: "shouldDrop (twins_net 1 [] [] []) 2 3 VoteMsg = Inr False"
    using shouldDrop_decision[OF twins_net_node2, of 1 "[]" "[]" "[]" 3 VoteMsg]
    unfolding s by (simp add: twins_net_def twins_views_def)
  have c: "shouldDrop (twins_net 3 [] [] []) 2 3 TimeoutMsg = Inr True"
    using shouldDrop_decision[OF twins_net_node2, of 3 "[]" "[]" "[]" 3 TimeoutMsg]
    unfolding s3 by (simp add: twins_net_def twins_views_def)
  show ?thesis using a b c by simp
qed

text \<open>
  C4 as stated fails in view 0: the index is \<open>-1\<close>, outside the view plan, and the
  message is not dropped, where the stated decision drops it.
\<close>

theorem view_zero_not_dropped:
  "nodes (twins_net 0 [] [] []) 2 = Some (mkNode 2 2 0 [])
   \<and> shouldDrop (twins_net 0 [] [] []) 2 4 VoteMsg = Inr False
   \<and> spec_drop (twins_net 0 [] [] []) (mkNode 2 2 0 []) 2 4 VoteMsg"
  by (simp add: shouldDrop_def spec_drop_def twins_net_def mkNode_def)


section \<open>Verification of the carousel\<close>

lemma carousel_loop_walked:
  "carousel_loop bc genesis f block i lastAuthors =
     lastAuthors \<union> Proposer ` set (walked bc genesis (nat (f - i)) block)"
proof (induction "nat (f - i)" arbitrary: block i lastAuthors)
  case 0
  then have "\<not> i < f" by simp
  then show ?case using 0
    by (subst carousel_loop.simps) (simp split: option.splits)
next
  case (Suc n)
  then have lt: "i < f" and n: "n = nat (f - (i + 1))" by linarith+
  have s: "nat (f - i) = Suc n" using Suc.hyps(2) by simp
  show ?case
  proof (cases block)
    case None
    then show ?thesis unfolding s by (subst carousel_loop.simps) simp
  next
    case (Some b)
    show ?thesis
    proof (cases "b = genesis")
      case True
      then show ?thesis unfolding s Some by (subst carousel_loop.simps) simp
    next
      case False
      have "carousel_loop bc genesis f (bc (Parent b)) (i + 1) (insert (Proposer b) lastAuthors)
            = insert (Proposer b) lastAuthors \<union> Proposer ` set (walked bc genesis n (bc (Parent b)))"
        using Suc.hyps(1)[OF n] n by simp
      then show ?thesis unfolding s Some using False lt
        by (subst carousel_loop.simps) simp
    qed
  qed
qed

lemma length_walked: "length (walked bc genesis n block) \<le> n"
  by (induction bc genesis n block rule: walked.induct) auto

lemma card_walked_proposers:
  "card (Proposer ` set (walked bc genesis n block)) \<le> n"
proof -
  have "card (Proposer ` set (walked bc genesis n block)) \<le> card (set (walked bc genesis n block))"
    by (rule card_image_le) simp
  also have "\<dots> \<le> length (walked bc genesis n block)" by (rule card_length)
  also have "\<dots> \<le> n" by (rule length_walked)
  finally show ?thesis .
qed


lemma GetLeader_carousel_path:
  assumes "Signature (QuorumCert (CommittedBlock (mods c))) = Some sig"
      and "View (CommittedBlock (mods c)) = round - word_of_int (ChainLength (mods c))"
  shows "GetLeader rr c round =
     (let candidates = filter (\<lambda>i. i \<notin> lastAuthorsOf c) (Participants sig)
      in if candidates = [] then Inl IntegerDivideByZero
         else Inr (candidates ! (shd (rnd c) mod length candidates), c\<lparr>rnd := stl (rnd c)\<rparr>))"
  using assms
  by (simp add: GetLeader_def Let_def rnd_Int_def lastAuthorsOf_def walkedFrom_def
      carousel_loop_walked)

lemma participants_minus_nonempty:
  assumes "card A < card (set ps)" "finite A"
  shows "filter (\<lambda>i. i \<notin> A) ps \<noteq> []"
proof
  assume "filter (\<lambda>i. i \<notin> A) ps = []"
  then have "set ps \<subseteq> A" by (auto simp: filter_empty_conv)
  then have "card (set ps) \<le> card A" using assms(2) by (rule card_mono[rotated])
  then show False using assms(1) by simp
qed

lemma NumFaulty_less_quorum: "NumFaulty (int n) < int n - NumFaulty (int n)"
  unfolding NumFaulty_def by linarith


lemma card_lastAuthors: "card (lastAuthorsOf c) \<le> nat (NumFaulty (int (Len (mods c))))"
  unfolding lastAuthorsOf_def walkedFrom_def by (rule card_walked_proposers)


lemma finite_lastAuthors: "finite (lastAuthorsOf c)"
  unfolding lastAuthorsOf_def by simp

lemma nth_filter_mem:
  assumes "filter P xs \<noteq> []"
  shows "filter P xs ! (r mod length (filter P xs)) \<in> {x \<in> set xs. P x}"
proof -
  have "r mod length (filter P xs) < length (filter P xs)" using assms by simp
  then have "filter P xs ! (r mod length (filter P xs)) \<in> set (filter P xs)" by (rule nth_mem)
  then show ?thesis by simp
qed

text \<open>
  The capacity \<open>Len - f\<close> that \<open>GetLeader\<close> gives to \<open>make\<close> for the candidate
  slice is never negative, so the allocation does not panic.
\<close>

lemma slice_capacity_nonneg: "0 \<le> int n - NumFaulty (int n)"
  unfolding NumFaulty_def by linarith

subsection \<open>The concrete carousel\<close>



lemma carousel_at_sig:
  "Signature (QuorumCert (CommittedBlock (mods (carousel_at k))))
     = Some \<lparr>ToBytes = ''q'', Participants = [1, 2, 3]\<rparr>"
  by (simp add: carousel_at_def headBlock_def)

lemma carousel_at_view:
  "View (CommittedBlock (mods (carousel_at k))) = 4 - word_of_int (ChainLength (mods (carousel_at k)))"
  by (simp add: carousel_at_def headBlock_def)

lemma carousel_at_step: "(carousel_at k)\<lparr>rnd := stl (rnd (carousel_at k))\<rparr> = carousel_at (Suc k)"
  by (simp add: carousel_at_def)



subsection \<open>The leader that is returned\<close>



subsection \<open>The candidate list is not empty\<close>

text \<open>
  C10. When the carousel path is taken and the participants of the committed block's
  certificate number at least \<open>N - f\<close>, with \<open>f\<close> the floor of \<open>(N - 1) / 3\<close>, then
  \<open>lastAuthors\<close> has at most \<open>f\<close> members, \<open>f < N - f\<close>, the candidate list is not
  empty, the index into it is in bounds, and \<open>GetLeader\<close> returns a leader without
  panicking.
\<close>

theorem candidates_nonempty:
  assumes "Signature (QuorumCert (CommittedBlock (mods c))) = Some sig"
      and "View (CommittedBlock (mods c)) = round - word_of_int (ChainLength (mods c))"
      and "int (Len (mods c)) - NumFaulty (int (Len (mods c))) \<le> int (card (set (Participants sig)))"
  shows "card (lastAuthorsOf c) \<le> nat (NumFaulty (int (Len (mods c))))
       \<and> NumFaulty (int (Len (mods c))) < int (Len (mods c)) - NumFaulty (int (Len (mods c)))
       \<and> filter (\<lambda>i. i \<notin> lastAuthorsOf c) (Participants sig) \<noteq> []
       \<and> shd (rnd c) mod length (filter (\<lambda>i. i \<notin> lastAuthorsOf c) (Participants sig))
            < length (filter (\<lambda>i. i \<notin> lastAuthorsOf c) (Participants sig))
       \<and> (\<exists>leader. GetLeader rr c round = Inr (leader, c\<lparr>rnd := stl (rnd c)\<rparr>)
             \<and> leader \<in> set (Participants sig) - lastAuthorsOf c)"
proof -
  let ?N = "int (Len (mods c))"
  let ?cands = "filter (\<lambda>i. i \<notin> lastAuthorsOf c) (Participants sig)"
  have c1: "card (lastAuthorsOf c) \<le> nat (NumFaulty ?N)" by (rule card_lastAuthors)
  have q: "NumFaulty ?N < ?N - NumFaulty ?N" by (rule NumFaulty_less_quorum)
  have "int (card (lastAuthorsOf c)) < int (card (set (Participants sig)))"
  proof (cases "0 \<le> NumFaulty ?N")
    case True
    then have "int (card (lastAuthorsOf c)) \<le> NumFaulty ?N" using c1 by linarith
    then show ?thesis using q assms(3) by linarith
  next
    case False
    then have "card (lastAuthorsOf c) = 0" using c1 by simp
    moreover have "0 < ?N - NumFaulty ?N" using False by linarith
    ultimately show ?thesis using assms(3) by linarith
  qed
  then have "card (lastAuthorsOf c) < card (set (Participants sig))" by simp
  then have ne: "?cands \<noteq> []" using finite_lastAuthors by (rule participants_minus_nonempty)
  then have b: "shd (rnd c) mod length ?cands < length ?cands" by simp
  have G: "GetLeader rr c round = Inr (?cands ! (shd (rnd c) mod length ?cands), c\<lparr>rnd := stl (rnd c)\<rparr>)"
    using GetLeader_carousel_path[OF assms(1,2), of rr] ne by (simp add: Let_def)
  have "?cands ! (shd (rnd c) mod length ?cands) \<in> {x \<in> set (Participants sig). x \<notin> lastAuthorsOf c}"
    using ne by (rule nth_filter_mem)
  then have "\<exists>leader. GetLeader rr c round = Inr (leader, c\<lparr>rnd := stl (rnd c)\<rparr>)
             \<and> leader \<in> set (Participants sig) - lastAuthorsOf c"
    using G by simp
  then show ?thesis using c1 q ne b by simp
qed

text \<open>An instance of C10 on the concrete carousel: four replicas, three participants.\<close>

theorem candidates_nonempty_witness:
  "filter (\<lambda>i. i \<notin> lastAuthorsOf (carousel_at 0)) [1, 2, 3] \<noteq> []
   \<and> (\<exists>leader. GetLeader chooseRoundRobin (carousel_at 0) 4 = Inr (leader, carousel_at 1)
         \<and> leader \<in> set [1, 2, 3] - lastAuthorsOf (carousel_at 0))"
proof -
  have q: "int (Len (mods (carousel_at 0))) - NumFaulty (int (Len (mods (carousel_at 0))))
             \<le> int (card (set (Participants \<lparr>ToBytes = ''q'', Participants = [1, 2, 3]\<rparr>)))"
    by (simp add: carousel_at_def NumFaulty_def)
  note t = candidates_nonempty[OF carousel_at_sig carousel_at_view q, of chooseRoundRobin]
  then show ?thesis by (simp add: carousel_at_step)
qed

subsection \<open>What the result depends on\<close>

















end
